theory Spec2Isabelle
  imports Complex_Main "HOL-Library.AList" "HOL-Library.List_Lexorder" "HOL-Library.Char_ord"
begin

section \<open>Common conventions\<close>

text \<open>
  A Python float is a rational number here, and an arithmetic operation of the source is the
  exact operation followed by a rounding. Where a property does not depend on the rounding,
  the functions are written with exact arithmetic, the rounding left out. \<open>combine_mass\<close>
  and the functions named \<open>fl_...\<close> take the rounding \<open>rnd\<close> as a parameter: with the
  identity they compute exactly, with \<open>round_double\<close> they compute as IEEE 754 binary64
  does (round to nearest, ties to even, below the overflow threshold).

  A Python \<open>dict\<close> is an association list in insertion order; it represents a dictionary
  when its keys are distinct. \<open>d[k]\<close> is \<open>map_of d k\<close> with \<open>None\<close> turned into
  \<open>KeyError\<close>, \<open>d[k] = v\<close> is \<open>AList.update k v d\<close> (an existing key keeps its
  position, a new key goes last), and a dict comprehension or \<open>dict(zip(...))\<close> inserts
  its items one after the other (\<open>dict_of\<close>).
\<close>

datatype error = KeyError | IndexError | StopIteration | ZeroDivisionError | ValueError

definition dict_of :: "('k \<times> 'v) list \<Rightarrow> ('k \<times> 'v) list" where
  "dict_of kvs = foldl (\<lambda>d (k, v). AList.update k v d) [] kvs"

definition truediv :: "rat \<Rightarrow> rat \<Rightarrow> error + rat" where
  "truediv a b = (if b = 0 then Inl ZeroDivisionError else Inr (a / b))"

text \<open>A loop whose body may raise: the first error ends the loop.\<close>

fun for_each :: "('a \<Rightarrow> 's \<Rightarrow> error + 's) \<Rightarrow> 'a list \<Rightarrow> 's \<Rightarrow> error + 's" where
  "for_each body [] s = Inr s"
| "for_each body (x # xs) s =
     (case body x s of Inl e \<Rightarrow> Inl e | Inr s' \<Rightarrow> for_each body xs s')"

text \<open>A comprehension whose element expression may raise.\<close>

fun map_each :: "('a \<Rightarrow> error + 'b) \<Rightarrow> 'a list \<Rightarrow> error + 'b list" where
  "map_each f [] = Inr []"
| "map_each f (x # xs) =
     (case f x of Inl e \<Rightarrow> Inl e
      | Inr y \<Rightarrow> (case map_each f xs of Inl e \<Rightarrow> Inl e | Inr ys \<Rightarrow> Inr (y # ys)))"

section \<open>dempster\_shafer.py\<close>

type_synonym label = string
type_synonym mass = "(label list \<times> rat) list"

text \<open>\<open>tuple(sorted(set(k1) & set(k2)))\<close>\<close>

definition intersect :: "label list \<Rightarrow> label list \<Rightarrow> label list" where
  "intersect k1 k2 = sorted_list_of_set (set k1 \<inter> set k2)"

text \<open>The body of the loop of \<open>combine_mass\<close> over \<open>product(m1.items(), m2.items())\<close>;
  the state is \<open>(combined, conflict)\<close>. The product \<open>v1 * v2\<close> and the sum it is added
  to are each rounded.\<close>

definition combine_step ::
  "(rat \<Rightarrow> rat) \<Rightarrow> mass \<times> rat \<Rightarrow> (label list \<times> rat) \<times> (label list \<times> rat) \<Rightarrow>
   mass \<times> rat" where
  "combine_step rnd acc p =
     (case (acc, p) of ((combined, conflict), ((k1, v1), (k2, v2))) \<Rightarrow>
        if intersect k1 k2 \<noteq> []
        then (AList.update (intersect k1 k2)
                (rnd ((case map_of combined (intersect k1 k2) of None \<Rightarrow> 0 | Some w \<Rightarrow> w)
                      + rnd (v1 * v2)))
                combined, conflict)
        else (combined, rnd (conflict + rnd (v1 * v2))))"

definition combine_loop :: "(rat \<Rightarrow> rat) \<Rightarrow> mass \<Rightarrow> mass \<Rightarrow> mass \<times> rat" where
  "combine_loop rnd m1 m2 = foldl (combine_step rnd) ([], 0) (List.product m1 m2)"


definition marginalize_mass :: "mass \<Rightarrow> label list \<Rightarrow> mass" where
  "marginalize_mass m target_vars =
     foldl (\<lambda>marginalized (subset, w).
              AList.update (filter (\<lambda>v. v \<in> set target_vars) subset)
                ((case map_of marginalized (filter (\<lambda>v. v \<in> set target_vars) subset) of
                    None \<Rightarrow> 0 | Some x \<Rightarrow> x) + w)
                marginalized)
           [] m"

definition belief :: "mass \<Rightarrow> label list \<Rightarrow> rat" where
  "belief m A = foldl (\<lambda>bel (subset, w). if set subset \<subseteq> set A then bel + w else bel) 0 m"

definition plausibility :: "mass \<Rightarrow> label list \<Rightarrow> rat" where
  "plausibility m A =
     foldl (\<lambda>pl (subset, w). if set subset \<inter> set A \<noteq> {} then pl + w else pl) 0 m"

definition m_flu :: mass where
  "m_flu = [([''Flu''], 1/10), ([''No Flu''], 8/10), ([''Flu'', ''No Flu''], 1/10)]"

section \<open>credal.py\<close>

type_synonym state = string
type_synonym marginal = "(state \<times> rat \<times> rat) list"
type_synonym table = "(state list \<times> marginal) list"
type_synonym dist = "(state \<times> rat) list"

text \<open>
  \<open>CredalNode\<close>: the name, the parents in order and the credal table (parent assignment to
  state to \<open>(low, high)\<close>). The parent references form a finite acyclic structure, which the
  datatype expresses; a node object shared by several children appears as the same value
  under each of them and is identified by its name. The \<open>children\<close> back-references are
  written by \<open>add_node\<close> and read by nothing, and have no counterpart here.
\<close>

datatype node = CredalNode (name: string) (parents: "node list") (credal_table: table)

text \<open>
  The running bounds \<open>lower_bounds\<close> and \<open>upper_bounds\<close> are keyed by \<open>node_states\<close> and read
  and written at those keys only. \<open>None\<close> stands for the initial \<open>float('inf')\<close> and
  \<open>float('-inf')\<close>, which is what the loop tests for.
\<close>

type_synonym bounds = "(state \<Rightarrow> rat option) \<times> (state \<Rightarrow> rat option)"

text \<open>Lines 63-68: one choice of endpoints, made into a distribution over \<open>states\<close>.\<close>

definition extreme_of :: "state list \<Rightarrow> rat list \<Rightarrow> error + dist" where
  "extreme_of states choice =
     (let extreme_dict = dict_of (zip states choice);
          total = sum_list (map snd extreme_dict)
      in if total > 0
         then (case map_each (\<lambda>(s, v). case truediv v total of
                                 Inl e \<Rightarrow> Inl e | Inr q \<Rightarrow> Inr (s, q)) extreme_dict of
                 Inl e \<Rightarrow> Inl e | Inr items \<Rightarrow> Inr (dict_of items))
         else Inr extreme_dict)"

text \<open>Lines 61-68: the extreme points of one parent marginal.\<close>

definition extreme_points :: "marginal \<Rightarrow> error + dist list" where
  "extreme_points pm =
     map_each (extreme_of (map fst pm))
       (product_lists (map (\<lambda>(s, l, u). [l, u]) pm))"

text \<open>Lines 78-80: \<open>for i, state in enumerate(parent_assignment): prob *= combo[i][state]\<close>.\<close>

fun joint_prob :: "rat \<Rightarrow> dist list \<Rightarrow> state list \<Rightarrow> error + rat" where
  "joint_prob prob combo [] = Inr prob"
| "joint_prob prob [] (s # ss) = Inl IndexError"
| "joint_prob prob (d # ds) (s # ss) =
     (case map_of d s of None \<Rightarrow> Inl KeyError | Some v \<Rightarrow> joint_prob (prob * v) ds ss)"

text \<open>Lines 84-87: the update of the running bounds for one state.\<close>

definition update_state :: "rat \<Rightarrow> marginal \<Rightarrow> state \<Rightarrow> bounds \<Rightarrow> error + bounds" where
  "update_state prob credal_entry s b =
     (case b of (lower_bounds, upper_bounds) \<Rightarrow>
        (case map_of credal_entry s of
           None \<Rightarrow> Inl KeyError
         | Some (low, high) \<Rightarrow>
             Inr (lower_bounds(s := Some (case lower_bounds s of
                                            None \<Rightarrow> prob * low
                                          | Some x \<Rightarrow> min x (prob * low))),
                  upper_bounds(s := Some (case upper_bounds s of
                                            None \<Rightarrow> prob * high
                                          | Some x \<Rightarrow> max x (prob * high))))))"

text \<open>Lines 77-87: the body of the loop over the joint parent assignments.\<close>

definition visit_assignment ::
  "table \<Rightarrow> state list \<Rightarrow> dist list \<Rightarrow> state list \<Rightarrow> bounds \<Rightarrow> error + bounds" where
  "visit_assignment tbl node_states combo parent_assignment b =
     (case joint_prob 1 combo parent_assignment of
        Inl e \<Rightarrow> Inl e
      | Inr prob \<Rightarrow>
          (case map_of tbl parent_assignment of
             None \<Rightarrow> Inl KeyError
           | Some credal_entry \<Rightarrow> for_each (update_state prob credal_entry) node_states b))"

text \<open>Lines 75-87: the body of the loop over the combinations of parent extreme points.\<close>

definition visit_combo :: "table \<Rightarrow> state list \<Rightarrow> dist list \<Rightarrow> bounds \<Rightarrow> error + bounds" where
  "visit_combo tbl node_states combo b =
     for_each (visit_assignment tbl node_states combo)
       (product_lists (map (map fst) combo)) b"

text \<open>Lines 93-104: the defaults for untouched bounds and the returned dictionary.\<close>

definition final_bounds :: "state list \<Rightarrow> bounds \<Rightarrow> marginal" where
  "final_bounds node_states b =
     dict_of (map (\<lambda>s. (s, (case fst b s of None \<Rightarrow> 0 | Some x \<Rightarrow> x),
                           (case snd b s of None \<Rightarrow> 1 | Some x \<Rightarrow> x))) node_states)"

text \<open>Lines 52-104: the marginal of a node with parents, from the parents' marginals.\<close>

definition combine_parents :: "table \<Rightarrow> marginal list \<Rightarrow> error + marginal" where
  "combine_parents tbl parent_marginals =
     (case tbl of
        [] \<Rightarrow> Inl StopIteration
      | first # _ \<Rightarrow>
          (let node_states = map fst (snd first) in
           case map_each extreme_points parent_marginals of
             Inl e \<Rightarrow> Inl e
           | Inr parent_extreme_options \<Rightarrow>
               (case for_each (visit_combo tbl node_states)
                       (product_lists parent_extreme_options)
                       (\<lambda>s. None, \<lambda>s. None) of
                  Inl e \<Rightarrow> Inl e
                | Inr b \<Rightarrow> Inr (final_bounds node_states b))))"

text \<open>
  Line 50: the parents are computed in order; the first one that raises ends the
  comprehension. Each call comes with the names it printed as
  \<open>Computing marginal for node\<close>, in order.
\<close>

fun run_all :: "(string list \<times> (error + 'a)) list \<Rightarrow> string list \<times> (error + 'a list)" where
  "run_all [] = ([], Inr [])"
| "run_all ((lg, Inl e) # rs) = (lg, Inl e)"
| "run_all ((lg, Inr x) # rs) =
     (case run_all rs of
        (lg', Inl e) \<Rightarrow> (lg @ lg', Inl e)
      | (lg', Inr xs) \<Rightarrow> (lg @ lg', Inr (x # xs)))"

text \<open>
  \<open>compute_marginal_extreme\<close>: the first component is the trace of the calls (the name
  printed on entry by this call and by the calls below it), the second the returned
  dictionary or the exception.
\<close>

fun compute_marginal_extreme :: "node \<Rightarrow> string list \<times> (error + marginal)" where
  "compute_marginal_extreme (CredalNode nm ps tbl) =
     (if ps = []
      then ([nm], case map_of tbl [] of None \<Rightarrow> Inl KeyError | Some e \<Rightarrow> Inr (dict_of e))
      else (case run_all (map compute_marginal_extreme ps) of
              (lg, Inl e) \<Rightarrow> (nm # lg, Inl e)
            | (lg, Inr parent_marginals) \<Rightarrow> (nm # lg, combine_parents tbl parent_marginals)))"

text \<open>\<open>CredalNetwork\<close>: the registry \<open>nodes\<close>, a dictionary from name to node.\<close>

type_synonym network = "(string \<times> node) list"

definition add_node :: "node \<Rightarrow> network \<Rightarrow> network" where
  "add_node n nodes = AList.update (name n) n nodes"

text \<open>Lines 111-113 and 121 of \<open>propagate\<close>.\<close>

fun propagate_loop ::
  "node list \<Rightarrow> (string \<times> marginal) list \<Rightarrow> string list \<times> (error + (string \<times> marginal) list)" where
  "propagate_loop [] marginals = ([], Inr marginals)"
| "propagate_loop (n # ns) marginals =
     (case compute_marginal_extreme n of
        (lg, Inl e) \<Rightarrow> (lg, Inl e)
      | (lg, Inr m) \<Rightarrow>
          (case propagate_loop ns (AList.update (name n) m marginals) of
             (lg', r) \<Rightarrow> (lg @ lg', r)))"

definition propagate :: "network \<Rightarrow> string list \<times> (error + (string \<times> marginal) list)" where
  "propagate nodes = propagate_loop (map snd nodes) []"

subsection \<open>The same functions with rounded arithmetic\<close>

text \<open>\<open>sum(extreme_dict.values())\<close>: the values are added from the left, starting at 0.\<close>

definition fl_sum :: "(rat \<Rightarrow> rat) \<Rightarrow> rat list \<Rightarrow> rat" where
  "fl_sum rnd vs = foldl (\<lambda>acc v. rnd (acc + v)) 0 vs"

definition fl_extreme_of :: "(rat \<Rightarrow> rat) \<Rightarrow> state list \<Rightarrow> rat list \<Rightarrow> error + dist" where
  "fl_extreme_of rnd states choice =
     (let extreme_dict = dict_of (zip states choice);
          total = fl_sum rnd (map snd extreme_dict)
      in if total > 0
         then (case map_each (\<lambda>(s, v). case truediv v total of
                                 Inl e \<Rightarrow> Inl e | Inr q \<Rightarrow> Inr (s, rnd q)) extreme_dict of
                 Inl e \<Rightarrow> Inl e | Inr items \<Rightarrow> Inr (dict_of items))
         else Inr extreme_dict)"

definition fl_extreme_points :: "(rat \<Rightarrow> rat) \<Rightarrow> marginal \<Rightarrow> error + dist list" where
  "fl_extreme_points rnd pm =
     map_each (fl_extreme_of rnd (map fst pm))
       (product_lists (map (\<lambda>(s, l, u). [l, u]) pm))"

fun fl_joint_prob :: "(rat \<Rightarrow> rat) \<Rightarrow> rat \<Rightarrow> dist list \<Rightarrow> state list \<Rightarrow> error + rat" where
  "fl_joint_prob rnd prob combo [] = Inr prob"
| "fl_joint_prob rnd prob [] (s # ss) = Inl IndexError"
| "fl_joint_prob rnd prob (d # ds) (s # ss) =
     (case map_of d s of
        None \<Rightarrow> Inl KeyError
      | Some v \<Rightarrow> fl_joint_prob rnd (rnd (prob * v)) ds ss)"

definition fl_update_state ::
  "(rat \<Rightarrow> rat) \<Rightarrow> rat \<Rightarrow> marginal \<Rightarrow> state \<Rightarrow> bounds \<Rightarrow> error + bounds" where
  "fl_update_state rnd prob credal_entry s b =
     (case b of (lower_bounds, upper_bounds) \<Rightarrow>
        (case map_of credal_entry s of
           None \<Rightarrow> Inl KeyError
         | Some (low, high) \<Rightarrow>
             Inr (lower_bounds(s := Some (case lower_bounds s of
                                            None \<Rightarrow> rnd (prob * low)
                                          | Some x \<Rightarrow> min x (rnd (prob * low)))),
                  upper_bounds(s := Some (case upper_bounds s of
                                            None \<Rightarrow> rnd (prob * high)
                                          | Some x \<Rightarrow> max x (rnd (prob * high)))))))"

definition fl_visit_assignment ::
  "(rat \<Rightarrow> rat) \<Rightarrow> table \<Rightarrow> state list \<Rightarrow> dist list \<Rightarrow> state list \<Rightarrow> bounds \<Rightarrow>
   error + bounds" where
  "fl_visit_assignment rnd tbl node_states combo parent_assignment b =
     (case fl_joint_prob rnd 1 combo parent_assignment of
        Inl e \<Rightarrow> Inl e
      | Inr prob \<Rightarrow>
          (case map_of tbl parent_assignment of
             None \<Rightarrow> Inl KeyError
           | Some credal_entry \<Rightarrow>
               for_each (fl_update_state rnd prob credal_entry) node_states b))"

definition fl_visit_combo ::
  "(rat \<Rightarrow> rat) \<Rightarrow> table \<Rightarrow> state list \<Rightarrow> dist list \<Rightarrow> bounds \<Rightarrow> error + bounds" where
  "fl_visit_combo rnd tbl node_states combo b =
     for_each (fl_visit_assignment rnd tbl node_states combo)
       (product_lists (map (map fst) combo)) b"

definition fl_combine_parents ::
  "(rat \<Rightarrow> rat) \<Rightarrow> table \<Rightarrow> marginal list \<Rightarrow> error + marginal" where
  "fl_combine_parents rnd tbl parent_marginals =
     (case tbl of
        [] \<Rightarrow> Inl StopIteration
      | first # _ \<Rightarrow>
          (let node_states = map fst (snd first) in
           case map_each (fl_extreme_points rnd) parent_marginals of
             Inl e \<Rightarrow> Inl e
           | Inr parent_extreme_options \<Rightarrow>
               (case for_each (fl_visit_combo rnd tbl node_states)
                       (product_lists parent_extreme_options)
                       (\<lambda>s. None, \<lambda>s. None) of
                  Inl e \<Rightarrow> Inl e
                | Inr b \<Rightarrow> Inr (final_bounds node_states b))))"

fun fl_compute_marginal_extreme ::
  "(rat \<Rightarrow> rat) \<Rightarrow> node \<Rightarrow> string list \<times> (error + marginal)" where
  "fl_compute_marginal_extreme rnd (CredalNode nm ps tbl) =
     (if ps = []
      then ([nm], case map_of tbl [] of None \<Rightarrow> Inl KeyError | Some e \<Rightarrow> Inr (dict_of e))
      else (case run_all (map (fl_compute_marginal_extreme rnd) ps) of
              (lg, Inl e) \<Rightarrow> (nm # lg, Inl e)
            | (lg, Inr parent_marginals) \<Rightarrow>
                (nm # lg, fl_combine_parents rnd tbl parent_marginals)))"

subsection \<open>Rounding to a double\<close>

text \<open>
  A positive rational is written \<open>n * 2 ^ q\<close> with \<open>2 ^ 52 \<le> n < 2 ^ 53\<close>, or with
  \<open>q = - 1074\<close> and \<open>n < 2 ^ 52\<close> for a subnormal; \<open>n\<close> is then rounded to the nearest
  integer, to the even one when two are as near.
\<close>

function scale_down :: "rat \<Rightarrow> int \<Rightarrow> rat \<times> int" where
  "scale_down n q = (if 2 ^ 53 \<le> n then scale_down (n / 2) (q + 1) else (n, q))"
  by pat_completeness auto
termination
proof (relation "measure (\<lambda>(n, q). nat \<lfloor>n\<rfloor>)")
  show "wf (measure (\<lambda>(n :: rat, q :: int). nat \<lfloor>n\<rfloor>))" by simp
next
  fix n :: rat and q :: int
  assume a: "2 ^ 53 \<le> n"
  then have "n / 2 \<le> n - 1" by simp
  then have "\<lfloor>n / 2\<rfloor> \<le> \<lfloor>n - 1\<rfloor>" by (rule floor_mono)
  then have "\<lfloor>n / 2\<rfloor> < \<lfloor>n\<rfloor>" by simp
  moreover have "0 < \<lfloor>n\<rfloor>" using a by (simp add: floor_less_iff not_less)
  ultimately show "((n / 2, q + 1), (n, q)) \<in> measure (\<lambda>(n, q). nat \<lfloor>n\<rfloor>)"
    by simp
qed

function scale_up :: "rat \<Rightarrow> int \<Rightarrow> rat \<times> int" where
  "scale_up n q = (if n < 2 ^ 52 \<and> - 1074 < q then scale_up (2 * n) (q - 1) else (n, q))"
  by pat_completeness auto
termination
  by (relation "measure (\<lambda>(n, q). nat (q + 1074))") auto

declare scale_down.simps [simp del] scale_up.simps [simp del]

definition round_half_even :: "rat \<Rightarrow> int" where
  "round_half_even n =
     (let f = \<lfloor>n\<rfloor>; r = n - of_int f
      in if r < 1 / 2 then f else if 1 / 2 < r then f + 1 else if even f then f else f + 1)"

definition pow2 :: "int \<Rightarrow> rat" where
  "pow2 q = (if 0 \<le> q then 2 ^ nat q else 1 / 2 ^ nat (- q))"

definition round_double :: "rat \<Rightarrow> rat" where
  "round_double x =
     (if x = 0 then 0
      else (case scale_down \<bar>x\<bar> 0 of (n, q) \<Rightarrow>
              (case scale_up n q of (n', q') \<Rightarrow>
                 sgn x * of_int (round_half_even n') * pow2 q')))"

subsection \<open>The medical diagnosis example (lines 126-161)\<close>

definition flu :: node where
  "flu = CredalNode ''Flu'' []
     [([], [(''Present'', (5/100, 1/10)), (''Absent'', (9/10, 95/100))])]"

definition cold :: node where
  "cold = CredalNode ''Cold'' []
     [([], [(''Present'', (1/10, 2/10)), (''Absent'', (8/10, 9/10))])]"

definition fever :: node where
  "fever = CredalNode ''Fever'' [flu, cold]
     [([''Present'', ''Present''], [(''Present'', (9/10, 1)), (''Absent'', (0, 1/10))]),
      ([''Present'', ''Absent''], [(''Present'', (8/10, 95/100)), (''Absent'', (5/100, 2/10))]),
      ([''Absent'', ''Present''], [(''Present'', (7/10, 85/100)), (''Absent'', (15/100, 3/10))]),
      ([''Absent'', ''Absent''], [(''Present'', (0, 1/10)), (''Absent'', (9/10, 1))])]"

definition cough :: node where
  "cough = CredalNode ''Cough'' [flu, cold]
     [([''Present'', ''Present''], [(''Present'', (8/10, 95/100)), (''Absent'', (5/100, 2/10))]),
      ([''Present'', ''Absent''], [(''Present'', (6/10, 8/10)), (''Absent'', (2/10, 4/10))]),
      ([''Absent'', ''Present''], [(''Present'', (5/10, 7/10)), (''Absent'', (3/10, 5/10))]),
      ([''Absent'', ''Absent''], [(''Present'', (0, 1/10)), (''Absent'', (9/10, 1))])]"

definition medical_network :: network where
  "medical_network = add_node cough (add_node fever (add_node cold (add_node flu [])))"

section \<open>Notions used to state the properties\<close>

text \<open>The conflict of Dempster's rule as a sum: the mass of the pairs of focal sets that do
  not meet.\<close>

definition disjoint_mass :: "mass \<Rightarrow> mass \<Rightarrow> rat" where
  "disjoint_mass m1 m2 =
     (\<Sum>(k1, v1)\<leftarrow>m1. \<Sum>(k2, v2)\<leftarrow>m2. if set k1 \<inter> set k2 = {} then v1 * v2 else 0)"

text \<open>The renormalisation of lines 65-67 on the vector of chosen endpoints.\<close>

definition normalise :: "rat list \<Rightarrow> rat list" where
  "normalise v = (if sum_list v > 0 then map (\<lambda>x. x / sum_list v) v else v)"

text \<open>The endpoint choices of one parent marginal and the distributions they give.\<close>

definition choices :: "marginal \<Rightarrow> rat list list" where
  "choices pm = product_lists (map (\<lambda>(s, l, u). [l, u]) pm)"

definition extremes :: "marginal \<Rightarrow> dist list" where
  "extremes pm = map (\<lambda>c. zip (map fst pm) (normalise c)) (choices pm)"

text \<open>The joint probability of a parent assignment under one distribution per parent.\<close>

definition weight :: "dist list \<Rightarrow> state list \<Rightarrow> rat" where
  "weight combo a = prod_list (map (\<lambda>(d, s). the (map_of d s)) (zip combo a))"

text \<open>Every pair of a combination of parent extreme points and a joint parent assignment,
  in the order of the two nested loops.\<close>

definition iterations :: "marginal list \<Rightarrow> (dist list \<times> state list) list" where
  "iterations pms =
     concat (map (\<lambda>combo. map (Pair combo) (product_lists (map (map fst) pms)))
               (product_lists (map extremes pms)))"

text \<open>The scaled lower and upper endpoints that the loops see for one state of the node.\<close>

definition low_terms :: "table \<Rightarrow> marginal list \<Rightarrow> state \<Rightarrow> rat list" where
  "low_terms tbl pms s =
     map (\<lambda>(combo, a). weight combo a * fst (the (map_of (the (map_of tbl a)) s)))
       (iterations pms)"

definition high_terms :: "table \<Rightarrow> marginal list \<Rightarrow> state \<Rightarrow> rat list" where
  "high_terms tbl pms s =
     map (\<lambda>(combo, a). weight combo a * snd (the (map_of (the (map_of tbl a)) s)))
       (iterations pms)"

text \<open>The states of a node: the keys of its root entry, or of the first entry of its
  table (line 53).\<close>

fun states_of :: "node \<Rightarrow> state list" where
  "states_of (CredalNode nm ps tbl) =
     (if ps = [] then (case map_of tbl [] of None \<Rightarrow> [] | Some e \<Rightarrow> map fst e)
      else (case tbl of [] \<Rightarrow> [] | first # _ \<Rightarrow> map fst (snd first)))"

text \<open>An interval is valid when \<open>0 \<le> low \<le> high \<le> 1\<close>.\<close>

definition valid_interval :: "rat \<times> rat \<Rightarrow> bool" where
  "valid_interval i = (0 \<le> fst i \<and> fst i \<le> snd i \<and> snd i \<le> 1)"

text \<open>
  Valid input: the entries are dictionaries of valid intervals; a root has its entry for the
  empty tuple; a node with parents has valid parents and, for every joint assignment of the
  parents' states, an entry that gives a valid interval to every state of the node.
\<close>

fun valid_node :: "node \<Rightarrow> bool" where
  "valid_node (CredalNode nm ps tbl) =
     (if ps = []
      then (case map_of tbl [] of
              None \<Rightarrow> False
            | Some e \<Rightarrow> distinct (map fst e) \<and> list_all (\<lambda>(s, i). valid_interval i) e)
      else list_all valid_node ps \<and>
           (case tbl of
              [] \<Rightarrow> False
            | first # _ \<Rightarrow>
                distinct (map fst (snd first)) \<and>
                list_all (\<lambda>a. case map_of tbl a of
                                None \<Rightarrow> False
                              | Some e \<Rightarrow>
                                  list_all (\<lambda>s. case map_of e s of
                                                   None \<Rightarrow> False
                                                 | Some i \<Rightarrow> valid_interval i)
                                    (map fst (snd first)))
                  (product_lists (map states_of ps))))"

text \<open>The second marginal has the same states in the same order and intervals that
  contain those of the first.\<close>

definition wider :: "marginal \<Rightarrow> marginal \<Rightarrow> bool" where
  "wider m m' =
     list_all2 (\<lambda>(s, l, u) (s', l', u'). s = s' \<and> l' \<le> l \<and> u \<le> u') m m'"

text \<open>The second node has the shape of the first, with every interval of its table and of
  its ancestors' tables widened or kept.\<close>

fun widened :: "node \<Rightarrow> node \<Rightarrow> bool" where
  "widened (CredalNode nm ps tbl) (CredalNode nm' ps' tbl') =
     (list_all2 widened ps ps' \<and>
      list_all2 (\<lambda>(a, e) (a', e'). a = a' \<and> wider e e') tbl tbl')"

text \<open>The calls that \<open>compute_marginal_extreme\<close> makes on a node when nothing raises: the
  node, then each parent in turn, recursively.\<close>

fun calls :: "node \<Rightarrow> string list" where
  "calls (CredalNode nm ps tbl) = nm # concat (map calls ps)"

text \<open>One step of the running minimum and maximum of lines 86-87, \<open>None\<close> being the
  infinite initial value.\<close>

definition tighten_low :: "rat option \<Rightarrow> rat \<Rightarrow> rat option" where
  "tighten_low b x = Some (case b of None \<Rightarrow> x | Some y \<Rightarrow> min y x)"

definition tighten_high :: "rat option \<Rightarrow> rat \<Rightarrow> rat option" where
  "tighten_high b x = Some (case b of None \<Rightarrow> x | Some y \<Rightarrow> max y x)"

text \<open>The bounds that the loops and the defaults of lines 93-97 give to one state.\<close>

definition low_bound :: "table \<Rightarrow> marginal list \<Rightarrow> state \<Rightarrow> rat" where
  "low_bound tbl pms s =
     (if iterations pms = [] then 0 else Min (set (low_terms tbl pms s)))"

definition high_bound :: "table \<Rightarrow> marginal list \<Rightarrow> state \<Rightarrow> rat" where
  "high_bound tbl pms s =
     (if iterations pms = [] then 1 else Max (set (high_terms tbl pms s)))"

text \<open>An iteration of the loops that raises nothing: the assignment takes one state of each
  distribution, and the table has an entry for it with every state of the node.\<close>

definition covered :: "table \<Rightarrow> state list \<Rightarrow> dist list \<times> state list \<Rightarrow> bool" where
  "covered tbl ns it = (list_all2 (\<lambda>d s. s \<in> fst ` set d) (fst it) (snd it) \<and>
       (\<exists>e. map_of tbl (snd it) = Some e \<and> (\<forall>s\<in>set ns. \<exists>i. map_of e s = Some i)))"

text \<open>The dictionary that \<open>compute_marginal_extreme\<close> returns, when it returns one.\<close>

definition marginal_of :: "node \<Rightarrow> marginal" where
  "marginal_of n = (case snd (compute_marginal_extreme n) of Inl e \<Rightarrow> [] | Inr m \<Rightarrow> m)"

text \<open>A marginal with distinct states and non-negative endpoints.\<close>

definition nonneg_marginal :: "marginal \<Rightarrow> bool" where
  "nonneg_marginal pm = (distinct (map fst pm) \<and> list_all (\<lambda>(s, l, u). 0 \<le> l \<and> 0 \<le> u) pm)"

text \<open>The Fever node of the example without its entry for \<open>('Absent', 'Absent')\<close>.\<close>

definition fever_gap :: node where
  "fever_gap = CredalNode ''Fever'' [flu, cold]
     [([''Present'', ''Present''], [(''Present'', (9/10, 1)), (''Absent'', (0, 1/10))]),
      ([''Present'', ''Absent''], [(''Present'', (8/10, 95/100)), (''Absent'', (5/100, 2/10))]),
      ([''Absent'', ''Present''], [(''Present'', (7/10, 85/100)), (''Absent'', (15/100, 3/10))])]"

text \<open>A parent marginal whose lower bounds are both 0.\<close>

definition zero_marginal :: marginal where
  "zero_marginal = [(''Present'', (0, 3/10)), (''Absent'', (0, 1))]"

text \<open>The bounds that \<open>propagate\<close> returns for a state of a node, if any.\<close>

definition propagated :: "network \<Rightarrow> string \<Rightarrow> state \<Rightarrow> (rat \<times> rat) option" where
  "propagated nodes nm s =
     (case snd (propagate nodes) of
        Inl e \<Rightarrow> None
      | Inr ms \<Rightarrow> (case map_of ms nm of None \<Rightarrow> None | Some m \<Rightarrow> map_of m s))"

text \<open>The Fever node of the example with wider intervals: for \<open>Present\<close> in the prior of
  \<open>Flu\<close>, and for \<open>Present\<close> in its own entry for \<open>('Absent', 'Absent')\<close>.\<close>

definition flu_wide :: node where
  "flu_wide = CredalNode ''Flu'' []
     [([], [(''Present'', (4/100, 12/100)), (''Absent'', (9/10, 95/100))])]"

definition fever_wide :: node where
  "fever_wide = CredalNode ''Fever'' [flu_wide, cold]
     [([''Present'', ''Present''], [(''Present'', (9/10, 1)), (''Absent'', (0, 1/10))]),
      ([''Present'', ''Absent''], [(''Present'', (8/10, 95/100)), (''Absent'', (5/100, 2/10))]),
      ([''Absent'', ''Present''], [(''Present'', (7/10, 85/100)), (''Absent'', (15/100, 3/10))]),
      ([''Absent'', ''Absent''], [(''Present'', (0, 2/10)), (''Absent'', (9/10, 1))])]"

text \<open>Every interval of the node's table and of its ancestors' tables has \<open>low = high\<close>.\<close>

fun point_node :: "node \<Rightarrow> bool" where
  "point_node (CredalNode nm ps tbl) =
     (list_all point_node ps \<and>
      list_all (\<lambda>(a, e). list_all (\<lambda>(s, l, u). l = u) e) tbl)"

text \<open>For a node with one parent whose marginal \<open>pm\<close> is a point distribution: the
  products of the renormalised probability of each parent state with the node's conditional
  lower endpoint for the state \<open>s\<close>. Ordinary forward propagation would add them up.\<close>

definition point_terms :: "marginal \<Rightarrow> table \<Rightarrow> state \<Rightarrow> rat list" where
  "point_terms pm tbl s =
     map (\<lambda>(x, p). p * fst (the (map_of (the (map_of tbl [x])) s)))
       (zip (map fst pm) (normalise (map (\<lambda>(x, l, u). l) pm)))"

definition forward_probability :: "marginal \<Rightarrow> table \<Rightarrow> state \<Rightarrow> rat" where
  "forward_probability pm tbl s = sum_list (point_terms pm tbl s)"

text \<open>A chain \<open>A \<rightarrow> B \<rightarrow> C\<close> whose intervals are all points.\<close>

definition chain_a :: node where
  "chain_a = CredalNode ''A'' [] [([], [(''a1'', (1/2, 1/2)), (''a2'', (1/2, 1/2))])]"

definition chain_b :: node where
  "chain_b = CredalNode ''B'' [chain_a]
     [([''a1''], [(''b1'', (1/5, 1/5)), (''b2'', (4/5, 4/5))]),
      ([''a2''], [(''b1'', (4/5, 4/5)), (''b2'', (1/5, 1/5))])]"

definition chain_c :: node where
  "chain_c = CredalNode ''C'' [chain_b]
     [([''b1''], [(''c1'', (1/10, 1/10)), (''c2'', (9/10, 9/10))]),
      ([''b2''], [(''c1'', (3/10, 3/10)), (''c2'', (7/10, 7/10))])]"

text \<open>The Fever node of the example as its constructor leaves it, with an empty table.\<close>

definition fever_empty :: node where
  "fever_empty = CredalNode ''Fever'' [flu, cold] []"

text \<open>A root \<open>X\<close> and its child \<open>Y\<close>, written with the doubles that the literals
  \<open>0.2\<close>, \<open>0.3\<close>, \<open>0.15\<close>, \<open>0.8\<close>, \<open>0.5\<close>, \<open>0.1\<close> denote; in the second pair
  the high of state \<open>a\<close> of \<open>X\<close> is the next double, \<open>0.30000000000000004\<close>.\<close>

definition ulp_x :: node where
  "ulp_x = CredalNode ''X'' []
     [([], [(''a'', (round_double (2/10), round_double (3/10))),
            (''b'', (round_double (15/100), round_double (8/10)))])]"

definition ulp_x_wide :: node where
  "ulp_x_wide = CredalNode ''X'' []
     [([], [(''a'', (round_double (2/10), round_double (30000000000000004 / 10 ^ 17))),
            (''b'', (round_double (15/100), round_double (8/10)))])]"

definition ulp_table :: table where
  "ulp_table = [([''a''], [(''y'', (1/2, 1))]), ([''b''], [(''y'', (0, round_double (1/10)))])]"

definition ulp_y :: node where
  "ulp_y = CredalNode ''Y'' [ulp_x] ulp_table"

definition ulp_y_wide :: node where
  "ulp_y_wide = CredalNode ''Y'' [ulp_x_wide] ulp_table"





definition m_zero_empty :: mass where
  "m_zero_empty = [([], 0), ([''Cold''], 1)]"


section \<open>Dictionaries, loops and comprehensions\<close>

lemma map_each_truediv:
  "d \<noteq> 0 \<Longrightarrow>
   map_each (\<lambda>(k, v). case truediv v d of Inl e \<Rightarrow> Inl e | Inr q \<Rightarrow> Inr (k, q)) xs =
     Inr (map (\<lambda>(k, v). (k, v / d)) xs)"
  by (induction xs) (auto simp: truediv_def)

section \<open>Rounding to a double\<close>

lemma floor_numeral_divide: "\<lfloor>numeral a / numeral b :: rat\<rfloor> = numeral a div numeral b"
  using floor_divide_of_int_eq[of "numeral a" "numeral b", where ?'a = rat] by simp

lemmas round_double_eval =
  round_double_def scale_down.simps scale_up.simps round_half_even_def pow2_def Let_def
  floor_numeral_divide

subsection \<open>Doubles do not cancel to zero below 1\<close>















section \<open>Properties of dempster\_shafer.py\<close>

lemma intersect_empty_iff: "intersect k1 k2 = [] \<longleftrightarrow> set k1 \<inter> set k2 = {}"
  by (simp add: intersect_def)








subsection \<open>The conflict in exact arithmetic\<close>

lemma combine_step_conflict:
  "snd (combine_step (\<lambda>x. x) (c, k) ((k1, v1), (k2, v2))) =
     k + (if set k1 \<inter> set k2 = {} then v1 * v2 else 0)"
  by (simp add: combine_step_def intersect_empty_iff)

lemma foldl_combine_step_conflict:
  "snd (foldl (combine_step (\<lambda>x. x)) acc ps) =
     snd acc + (\<Sum>((k1, v1), (k2, v2))\<leftarrow>ps. if set k1 \<inter> set k2 = {} then v1 * v2 else 0)"
proof (induction ps arbitrary: acc)
  case Nil
  then show ?case by simp
next
  case (Cons p ps)
  obtain c k where acc: "acc = (c, k)" by (cases acc)
  obtain k1 v1 k2 v2 where p: "p = ((k1, v1), (k2, v2))" by (cases p) auto
  show ?case
    by (simp add: Cons.IH acc p combine_step_conflict)
qed

lemma sum_list_product:
  "(\<Sum>p\<leftarrow>List.product xs ys. f p) = (\<Sum>x\<leftarrow>xs. \<Sum>y\<leftarrow>ys. f (x, y))"
  by (induction xs) (simp_all add: comp_def)

lemma conflict_eq_disjoint_mass: "snd (combine_loop (\<lambda>x. x) m1 m2) = disjoint_mass m1 m2"
  unfolding combine_loop_def foldl_combine_step_conflict sum_list_product disjoint_mass_def
  by (simp add: case_prod_unfold cong: if_cong)

lemma disjoint_mass_nonneg:
  assumes "\<forall>(k, v)\<in>set m1. 0 \<le> v" "\<forall>(k, v)\<in>set m2. 0 \<le> v"
  shows "0 \<le> disjoint_mass m1 m2"
  unfolding disjoint_mass_def using assms
  by (intro sum_list_nonneg) (fastforce intro!: sum_list_nonneg mult_nonneg_nonneg)

lemma disjoint_mass_le:
  assumes "\<forall>(k, v)\<in>set m1. 0 \<le> v" "\<forall>(k, v)\<in>set m2. 0 \<le> v"
  shows "disjoint_mass m1 m2 \<le> sum_list (map snd m1) * sum_list (map snd m2)"
proof -
  have inner: "(\<Sum>(k2, v2)\<leftarrow>m2. if set k1 \<inter> set k2 = {} then v1 * v2 else 0)
       \<le> v1 * sum_list (map snd m2)" if "0 \<le> v1" for k1 v1
  proof -
    have "(\<Sum>(k2, v2)\<leftarrow>m2. if set k1 \<inter> set k2 = {} then v1 * v2 else 0)
        \<le> (\<Sum>(k2, v2)\<leftarrow>m2. v1 * v2)"
      using assms(2) that by (intro sum_list_mono) auto
    also have "\<dots> = v1 * sum_list (map snd m2)"
      by (simp add: sum_list_const_mult case_prod_unfold)
    finally show ?thesis .
  qed
  have "disjoint_mass m1 m2 \<le> (\<Sum>(k1, v1)\<leftarrow>m1. v1 * sum_list (map snd m2))"
    unfolding disjoint_mass_def using assms(1) inner
    by (intro sum_list_mono) auto
  also have "\<dots> = sum_list (map snd m1) * sum_list (map snd m2)"
    by (simp add: sum_list_mult_const case_prod_unfold)
  finally show ?thesis .
qed

lemma exact_conflict_in_unit_interval:
  assumes "\<forall>(k, v)\<in>set m1. 0 \<le> v" and "sum_list (map snd m1) = 1"
    and "\<forall>(k, v)\<in>set m2. 0 \<le> v" and "sum_list (map snd m2) = 1"
  shows "0 \<le> snd (combine_loop (\<lambda>x. x) m1 m2) \<and> snd (combine_loop (\<lambda>x. x) m1 m2) \<le> 1"
  using disjoint_mass_le[OF assms(1,3)] disjoint_mass_nonneg[OF assms(1,3)] assms(2,4)
  by (simp add: conflict_eq_disjoint_mass)

subsection \<open>Belief and plausibility\<close>

lemma belief_plausibility_foldl:
  fixes m :: mass and b p :: rat
  assumes "\<forall>(k, v)\<in>set m. 0 \<le> v \<and> (k = [] \<longrightarrow> v = 0)" and "b \<le> p"
  shows "foldl (\<lambda>bel (subset, w). if set subset \<subseteq> set A then bel + w else bel) b m
       \<le> foldl (\<lambda>pl (subset, w). if set subset \<inter> set A \<noteq> {} then pl + w else pl) p m"
  using assms
proof (induction m arbitrary: b p)
  case Nil
  then show ?case by simp
next
  case (Cons x m)
  obtain k v where x: "x = (k, v)" by (cases x)
  from Cons.prems x have v: "0 \<le> v" and k: "k = [] \<Longrightarrow> v = 0" by auto
  have sub: "set k \<inter> set A \<noteq> {}" if "set k \<subseteq> set A" "k \<noteq> []"
    using that by (cases k) auto
  have rest: "\<forall>(k, v)\<in>set m. 0 \<le> v \<and> (k = [] \<longrightarrow> v = 0)"
    using Cons.prems(1) by simp
  have step: "(if set k \<subseteq> set A then b + v else b)
      \<le> (if set k \<inter> set A \<noteq> {} then p + v else p)"
  proof (cases "k = []")
    case True
    with k Cons.prems(2) show ?thesis by simp
  next
    case False
    with v sub Cons.prems(2) show ?thesis by auto
  qed
  show ?case
    unfolding x by (simp only: foldl_Cons prod.case) (rule Cons.IH[OF rest step])
qed

text \<open>
  C10: for a mass function with non-negative weights and no mass on the empty label set (no
  entry for it, or one of mass 0), belief is at most plausibility for every label set; a
  mass function with positive mass on the empty set, as \<open>marginalize_mass\<close> produces, can
  have belief above plausibility.
\<close>

theorem belief_le_plausibility:
  "(\<forall>m A. (\<forall>(k, v)\<in>set m. 0 \<le> v \<and> (k = [] \<longrightarrow> v = 0)) \<longrightarrow>
           belief m A \<le> plausibility m A) \<and>
   marginalize_mass [([''Flu''], 1)] [''Cold''] = [([], 1)] \<and>
   plausibility [([], 1)] [''Cold''] < belief [([], 1)] [''Cold'']"
proof (intro conjI allI impI)
  fix m :: mass and A
  assume "\<forall>(k, v)\<in>set m. 0 \<le> v \<and> (k = [] \<longrightarrow> v = 0)"
  then show "belief m A \<le> plausibility m A"
    unfolding belief_def plausibility_def by (rule belief_plausibility_foldl) simp
next
  show "marginalize_mass [([''Flu''], 1)] [''Cold''] = [([], 1)]"
    by (simp add: marginalize_mass_def)
next
  show "plausibility [([], 1)] [''Cold''] < belief [([], 1)] [''Cold'']"
    by (simp add: belief_def plausibility_def)
qed

theorem belief_le_plausibility_witness:
  "marginalize_mass [([''Flu''], 0), ([''Cold''], 1)] [''Cold''] = m_zero_empty \<and>
   list_all (\<lambda>(k, v). 0 \<le> v \<and> (k \<noteq> [] \<or> v = 0)) m_zero_empty \<and>
   belief m_zero_empty [''Cold''] \<le> plausibility m_zero_empty [''Cold''] \<and>
   belief m_zero_empty [''Cold''] = 1 \<and> plausibility m_zero_empty [''Cold''] = 1 \<and>
   belief m_flu [''Flu''] \<le> plausibility m_flu [''Flu''] \<and>
   belief m_flu [''Flu''] = 1 / 10 \<and> plausibility m_flu [''Flu''] = 1 / 5"
proof -
  have h: "\<forall>(k, v)\<in>set m_zero_empty. 0 \<le> v \<and> (k = [] \<longrightarrow> v = 0)"
    by (simp add: m_zero_empty_def)
  have h': "\<forall>(k, v)\<in>set m_flu. 0 \<le> v \<and> (k = [] \<longrightarrow> v = 0)"
    by (simp add: m_flu_def)
  have "belief m_zero_empty [''Cold''] \<le> plausibility m_zero_empty [''Cold'']"
    using belief_le_plausibility h by blast
  moreover have "belief m_flu [''Flu''] \<le> plausibility m_flu [''Flu'']"
    using belief_le_plausibility h' by blast
  moreover have "marginalize_mass [([''Flu''], 0), ([''Cold''], 1)] [''Cold''] = m_zero_empty"
    by (simp add: marginalize_mass_def m_zero_empty_def)
  moreover have "belief m_zero_empty [''Cold''] = 1" "plausibility m_zero_empty [''Cold''] = 1"
    by (simp_all add: belief_def plausibility_def m_zero_empty_def)
  moreover have "belief m_flu [''Flu''] = 1 / 10" "plausibility m_flu [''Flu''] = 1 / 5"
    by (simp_all add: belief_def plausibility_def m_flu_def)
  moreover have "list_all (\<lambda>(k, v). 0 \<le> v \<and> (k \<noteq> [] \<or> v = 0)) m_zero_empty"
    by (simp add: m_zero_empty_def)
  ultimately show ?thesis by simp
qed

section \<open>Properties of credal.py\<close>

subsection \<open>The loops in closed form\<close>

lemma update_fresh: "k \<notin> fst ` set d \<Longrightarrow> AList.update k v d = d @ [(k, v)]"
  by (induction d) auto

lemma foldl_update_distinct:
  "distinct (map fst (d @ kvs)) \<Longrightarrow>
   foldl (\<lambda>d (k, v). AList.update k v d) d kvs = d @ kvs"
proof (induction kvs arbitrary: d)
  case Nil
  then show ?case by simp
next
  case (Cons kv kvs)
  obtain k v where kv: "kv = (k, v)" by (cases kv)
  have fresh: "k \<notin> fst ` set d" using Cons.prems kv by auto
  have "distinct (map fst ((d @ [(k, v)]) @ kvs))" using Cons.prems kv by simp
  from Cons.IH[OF this] show ?case by (simp add: kv update_fresh[OF fresh])
qed

lemma dict_of_distinct: "distinct (map fst kvs) \<Longrightarrow> dict_of kvs = kvs"
  using foldl_update_distinct[of "[]" kvs] by (simp add: dict_of_def)

lemma foldl_update_keys_distinct:
  "distinct (map fst d) \<Longrightarrow> distinct (map fst (foldl (\<lambda>d (k, v). AList.update k v d) d kvs))"
  by (induction kvs arbitrary: d) (auto simp: distinct_update)

lemma distinct_dict_of: "distinct (map fst (dict_of kvs))"
  using foldl_update_keys_distinct[of "[]" kvs] by (simp add: dict_of_def)

lemma map_each_Inr: "(\<And>x. x \<in> set xs \<Longrightarrow> f x = Inr (g x)) \<Longrightarrow> map_each f xs = Inr (map g xs)"
  by (induction xs) auto

lemma for_each_Pair:
  "for_each (\<lambda>(c, a). g c a) (map (Pair c) as) s = for_each (g c) as s"
  by (induction as arbitrary: s) (auto split: sum.splits)

lemma for_each_append:
  "for_each f (xs @ ys) s =
     (case for_each f xs s of Inl e \<Rightarrow> Inl e | Inr s' \<Rightarrow> for_each f ys s')"
  by (induction xs arbitrary: s) (auto split: sum.splits)

lemma for_each_nested:
  "for_each (\<lambda>c. for_each (g c) (h c)) cs s =
     for_each (\<lambda>(c, a). g c a) (concat (map (\<lambda>c. map (Pair c) (h c)) cs)) s"
  by (induction cs arbitrary: s) (auto simp: for_each_append for_each_Pair split: sum.splits)

lemma length_normalise: "length (normalise v) = length v"
  by (simp add: normalise_def)

lemma extreme_of_eq:
  assumes "distinct states" and "length choice = length states"
  shows "extreme_of states choice = Inr (zip states (normalise choice))"
proof -
  have d: "dict_of (zip states choice) = zip states choice"
    using assms by (intro dict_of_distinct) simp
  have t: "sum_list (map snd (zip states choice)) = sum_list choice"
    using assms by simp
  show ?thesis
  proof (cases "sum_list choice > 0")
    case True
    have m: "map (\<lambda>(k, v). (k, v / sum_list choice)) (zip states choice)
        = zip states (map (\<lambda>x. x / sum_list choice) choice)"
      by (simp add: zip_map2 case_prod_unfold)
    have "dict_of (zip states (map (\<lambda>x. x / sum_list choice) choice))
        = zip states (map (\<lambda>x. x / sum_list choice) choice)"
      using assms by (intro dict_of_distinct) simp
    with True show ?thesis
      by (simp add: extreme_of_def d t map_each_truediv m normalise_def)
  next
    case False
    then show ?thesis by (simp add: extreme_of_def d t normalise_def)
  qed
qed

lemma length_choice: "c \<in> set (choices pm) \<Longrightarrow> length c = length pm"
  by (auto simp: choices_def dest: in_set_product_lists_length)

lemma choices_nonempty: "choices pm \<noteq> []"
  unfolding choices_def by (induction pm) (auto split: prod.splits)

lemma extreme_points_eq:
  assumes "distinct (map fst pm)"
  shows "extreme_points pm = Inr (extremes pm)"
  unfolding extreme_points_def extremes_def choices_def[symmetric]
  by (rule map_each_Inr) (simp add: extreme_of_eq assms length_choice)

lemma extremes_nonempty: "extremes pm \<noteq> []"
  by (simp add: extremes_def choices_nonempty)

lemma keys_extreme: "d \<in> set (extremes pm) \<Longrightarrow> map fst d = map fst pm"
  by (auto simp: extremes_def length_choice length_normalise)

lemma keys_combo:
  assumes "combo \<in> set (product_lists (map extremes pms))"
  shows "map (map fst) combo = map (map fst) pms"
proof -
  have "list_all2 (\<lambda>d pm. d \<in> set (extremes pm)) combo pms"
    using assms by (simp add: product_lists_set list_all2_map2)
  then show ?thesis
    by (induction rule: list_all2_induct) (auto simp: keys_extreme)
qed

lemma weight_Nil [simp]: "weight combo [] = 1" "weight [] a = 1"
  by (simp_all add: weight_def)

lemma weight_Cons [simp]: "weight (d # ds) (s # ss) = the (map_of d s) * weight ds ss"
  by (simp add: weight_def)

lemma joint_prob_eq:
  assumes "list_all2 (\<lambda>d s. s \<in> fst ` set d) combo a"
  shows "joint_prob p combo a = Inr (p * weight combo a)"
  using assms
proof (induction arbitrary: p rule: list_all2_induct)
  case Nil
  then show ?case by simp
next
  case (Cons d ds s ss)
  from Cons.hyps(1) obtain v where v: "map_of d s = Some v"
    by (metis map_of_eq_None_iff not_Some_eq)
  show ?case by (simp add: v Cons.IH mult.assoc)
qed

lemma assignment_in_combo:
  assumes "combo \<in> set (product_lists (map extremes pms))"
    and "a \<in> set (product_lists (map (map fst) pms))"
  shows "list_all2 (\<lambda>d s. s \<in> fst ` set d) combo a"
proof -
  have "list_all2 (\<lambda>s ks. s \<in> set ks) a (map (map fst) combo)"
    using assms by (simp add: keys_combo product_lists_set)
  then have "list_all2 (\<lambda>s d. s \<in> set (map fst d)) a combo"
    by (simp add: list_all2_map2)
  then show ?thesis
    by (auto simp: list_all2_conv_all_nth)
qed

lemma update_state_eq:
  assumes "map_of e s = Some (l, u)"
  shows "update_state p e s b =
     Inr ((fst b)(s := tighten_low (fst b s) (p * l)), (snd b)(s := tighten_high (snd b s) (p * u)))"
  using assms by (cases b) (simp add: update_state_def tighten_low_def tighten_high_def)

lemma tighten_low_idem: "tighten_low (tighten_low b x) x = tighten_low b x"
  by (cases b) (simp_all add: tighten_low_def)

lemma tighten_high_idem: "tighten_high (tighten_high b x) x = tighten_high b x"
  by (cases b) (simp_all add: tighten_high_def)

lemma for_each_update_state:
  assumes "\<forall>s\<in>set ns. \<exists>i. map_of e s = Some i"
  shows "\<exists>b'. for_each (update_state p e) ns b = Inr b' \<and>
     (\<forall>s. fst b' s = (if s \<in> set ns
                       then tighten_low (fst b s) (p * fst (the (map_of e s)))
                       else fst b s)) \<and>
     (\<forall>s. snd b' s = (if s \<in> set ns
                       then tighten_high (snd b s) (p * snd (the (map_of e s)))
                       else snd b s))"
  using assms
proof (induction ns arbitrary: b)
  case Nil
  then show ?case by simp
next
  case (Cons n ns)
  from Cons.prems obtain l u where e: "map_of e n = Some (l, u)" by fastforce
  define b1 where "b1 = ((fst b)(n := tighten_low (fst b n) (p * l)),
                         (snd b)(n := tighten_high (snd b n) (p * u)))"
  have step: "update_state p e n b = Inr b1"
    by (simp add: update_state_eq[OF e] b1_def)
  from Cons.prems have "\<forall>s\<in>set ns. \<exists>i. map_of e s = Some i" by simp
  from Cons.IH[OF this, of b1] obtain b' where
    run: "for_each (update_state p e) ns b1 = Inr b'" and
    lo: "\<And>s. fst b' s = (if s \<in> set ns
                       then tighten_low (fst b1 s) (p * fst (the (map_of e s)))
                       else fst b1 s)" and
    hi: "\<And>s. snd b' s = (if s \<in> set ns
                       then tighten_high (snd b1 s) (p * snd (the (map_of e s)))
                       else snd b1 s)"
    by blast
  have "for_each (update_state p e) (n # ns) b = Inr b'"
    by (simp add: step run)
  moreover have "fst b' s = (if s \<in> set (n # ns)
                       then tighten_low (fst b s) (p * fst (the (map_of e s)))
                       else fst b s)" for s
    by (simp add: lo b1_def e tighten_low_idem)
  moreover have "snd b' s = (if s \<in> set (n # ns)
                       then tighten_high (snd b s) (p * snd (the (map_of e s)))
                       else snd b s)" for s
    by (simp add: hi b1_def e tighten_high_idem)
  ultimately show ?case by blast
qed

lemma visit_assignment_eq:
  assumes "list_all2 (\<lambda>d s. s \<in> fst ` set d) combo a"
    and "map_of tbl a = Some e"
    and "\<forall>s\<in>set ns. \<exists>i. map_of e s = Some i"
  shows "\<exists>b'. visit_assignment tbl ns combo a b = Inr b' \<and>
     (\<forall>s. fst b' s = (if s \<in> set ns
                       then tighten_low (fst b s) (weight combo a * fst (the (map_of e s)))
                       else fst b s)) \<and>
     (\<forall>s. snd b' s = (if s \<in> set ns
                       then tighten_high (snd b s) (weight combo a * snd (the (map_of e s)))
                       else snd b s))"
  using for_each_update_state[OF assms(3), of "weight combo a" b]
  by (simp add: visit_assignment_def joint_prob_eq[OF assms(1)] assms(2))

lemma for_each_visit:
  assumes "\<forall>it\<in>set its. covered tbl ns it"
  shows "\<exists>b'. for_each (\<lambda>(c, a). visit_assignment tbl ns c a) its b = Inr b' \<and>
     (\<forall>s. fst b' s = (if s \<in> set ns
          then foldl tighten_low (fst b s)
                 (map (\<lambda>(c, a). weight c a * fst (the (map_of (the (map_of tbl a)) s))) its)
          else fst b s)) \<and>
     (\<forall>s. snd b' s = (if s \<in> set ns
          then foldl tighten_high (snd b s)
                 (map (\<lambda>(c, a). weight c a * snd (the (map_of (the (map_of tbl a)) s))) its)
          else snd b s))"
  using assms
proof (induction its arbitrary: b)
  case Nil
  then show ?case by simp
next
  case (Cons it its)
  obtain c a where it: "it = (c, a)" by (cases it)
  from Cons.prems it obtain e where
    ca: "list_all2 (\<lambda>d s. s \<in> fst ` set d) c a" and
    e: "map_of tbl a = Some e" and
    es: "\<forall>s\<in>set ns. \<exists>i. map_of e s = Some i"
    by (auto simp: covered_def)
  from visit_assignment_eq[OF ca e es, of b] obtain b1 where
    step: "visit_assignment tbl ns c a b = Inr b1" and
    lo1: "\<And>s. fst b1 s = (if s \<in> set ns
                       then tighten_low (fst b s) (weight c a * fst (the (map_of e s)))
                       else fst b s)" and
    hi1: "\<And>s. snd b1 s = (if s \<in> set ns
                       then tighten_high (snd b s) (weight c a * snd (the (map_of e s)))
                       else snd b s)"
    by blast
  from Cons.prems have "\<forall>it\<in>set its. covered tbl ns it" by simp
  from Cons.IH[OF this, of b1] obtain b' where
    run: "for_each (\<lambda>(c, a). visit_assignment tbl ns c a) its b1 = Inr b'" and
    lo: "\<And>s. fst b' s = (if s \<in> set ns
          then foldl tighten_low (fst b1 s)
                 (map (\<lambda>(c, a). weight c a * fst (the (map_of (the (map_of tbl a)) s))) its)
          else fst b1 s)" and
    hi: "\<And>s. snd b' s = (if s \<in> set ns
          then foldl tighten_high (snd b1 s)
                 (map (\<lambda>(c, a). weight c a * snd (the (map_of (the (map_of tbl a)) s))) its)
          else snd b1 s)"
    by blast
  have "for_each (\<lambda>(c, a). visit_assignment tbl ns c a) (it # its) b = Inr b'"
    by (simp add: it step run)
  moreover have "fst b' s = (if s \<in> set ns
          then foldl tighten_low (fst b s)
                 (map (\<lambda>(c, a). weight c a * fst (the (map_of (the (map_of tbl a)) s))) (it # its))
          else fst b s)" for s
    by (simp add: lo lo1 it e)
  moreover have "snd b' s = (if s \<in> set ns
          then foldl tighten_high (snd b s)
                 (map (\<lambda>(c, a). weight c a * snd (the (map_of (the (map_of tbl a)) s))) (it # its))
          else snd b s)" for s
    by (simp add: hi hi1 it e)
  ultimately show ?case by blast
qed

lemma foldl_tighten_low_Some: "foldl tighten_low (Some y) xs = Some (fold min xs y)"
  by (induction xs arbitrary: y) (simp_all add: tighten_low_def min.commute)

lemma foldl_tighten_high_Some: "foldl tighten_high (Some y) xs = Some (fold max xs y)"
  by (induction xs arbitrary: y) (simp_all add: tighten_high_def max.commute)

lemma foldl_tighten_low:
  "foldl tighten_low None xs = (if xs = [] then None else Some (Min (set xs)))"
proof (cases xs)
  case Nil
  then show ?thesis by simp
next
  case (Cons x xs')
  have "foldl tighten_low None (x # xs') = foldl tighten_low (Some x) xs'"
    by (simp add: tighten_low_def)
  then show ?thesis
    using Cons by (simp only: foldl_tighten_low_Some Min.set_eq_fold) simp
qed

lemma foldl_tighten_high:
  "foldl tighten_high None xs = (if xs = [] then None else Some (Max (set xs)))"
proof (cases xs)
  case Nil
  then show ?thesis by simp
next
  case (Cons x xs')
  have "foldl tighten_high None (x # xs') = foldl tighten_high (Some x) xs'"
    by (simp add: tighten_high_def)
  then show ?thesis
    using Cons by (simp only: foldl_tighten_high_Some Max.set_eq_fold) simp
qed

lemma iterations_covered:
  assumes "\<forall>a\<in>set (product_lists (map (map fst) pms)).
             \<exists>e. map_of tbl a = Some e \<and> (\<forall>s\<in>set ns. \<exists>i. map_of e s = Some i)"
  shows "\<forall>it\<in>set (iterations pms). covered tbl ns it"
  using assms by (auto simp: iterations_def covered_def assignment_in_combo)

lemma visit_combo_loop:
  "for_each (visit_combo tbl ns) (product_lists (map extremes pms)) b =
     for_each (\<lambda>(c, a). visit_assignment tbl ns c a) (iterations pms) b"
proof -
  have "visit_combo tbl ns =
      (\<lambda>c. for_each (visit_assignment tbl ns c) (product_lists (map (map fst) c)))"
    by (intro ext) (simp add: visit_combo_def)
  moreover have "concat (map (\<lambda>c. map (Pair c) (product_lists (map (map fst) c)))
                     (product_lists (map extremes pms))) = iterations pms"
    unfolding iterations_def
    by (intro arg_cong[where f = concat] map_cong refl) (simp add: keys_combo)
  ultimately show ?thesis by (simp add: for_each_nested)
qed

lemma combine_parents_eq:
  assumes tbl: "tbl = first # rest"
    and ns: "distinct (map fst (snd first))"
    and pms: "\<forall>pm\<in>set pms. distinct (map fst pm)"
    and cov: "\<forall>a\<in>set (product_lists (map (map fst) pms)).
             \<exists>e. map_of tbl a = Some e \<and>
                 (\<forall>s\<in>set (map fst (snd first)). \<exists>i. map_of e s = Some i)"
  shows "combine_parents tbl pms =
     Inr (map (\<lambda>s. (s, low_bound tbl pms s, high_bound tbl pms s)) (map fst (snd first)))"
proof -
  let ?ns = "map fst (snd first)"
  have ext: "map_each extreme_points pms = Inr (map extremes pms)"
    using pms by (intro map_each_Inr) (simp add: extreme_points_eq)
  from for_each_visit[OF iterations_covered[OF cov], of "(\<lambda>s. None, \<lambda>s. None)"]
  obtain b' where
    run: "for_each (\<lambda>(c, a). visit_assignment tbl ?ns c a) (iterations pms)
            (\<lambda>s. None, \<lambda>s. None) = Inr b'" and
    lo: "\<And>s. s \<in> set ?ns \<Longrightarrow> fst b' s = foldl tighten_low None (low_terms tbl pms s)" and
    hi: "\<And>s. s \<in> set ?ns \<Longrightarrow> snd b' s = foldl tighten_high None (high_terms tbl pms s)"
    unfolding low_terms_def high_terms_def by fastforce
  have empty: "low_terms tbl pms s = [] \<longleftrightarrow> iterations pms = []"
    "high_terms tbl pms s = [] \<longleftrightarrow> iterations pms = []" for s
    by (simp_all add: low_terms_def high_terms_def)
  have fin: "final_bounds ?ns b' =
      map (\<lambda>s. (s, low_bound tbl pms s, high_bound tbl pms s)) ?ns"
  proof -
    have "final_bounds ?ns b' =
        map (\<lambda>s. (s, (case fst b' s of None \<Rightarrow> 0 | Some x \<Rightarrow> x),
                      (case snd b' s of None \<Rightarrow> 1 | Some x \<Rightarrow> x))) ?ns"
      unfolding final_bounds_def using ns
      by (intro dict_of_distinct) (simp add: comp_def)
    also have "\<dots> = map (\<lambda>s. (s, low_bound tbl pms s, high_bound tbl pms s)) ?ns"
      by (intro map_cong refl)
        (simp add: lo hi foldl_tighten_low foldl_tighten_high empty low_bound_def
          high_bound_def)
    finally show ?thesis .
  qed
  show ?thesis
    using run fin by (simp add: combine_parents_def tbl ext visit_combo_loop Let_def)
qed

subsection \<open>The recursion over the parents\<close>

lemma run_all_Inr:
  assumes "\<forall>r\<in>set rs. \<exists>m. snd r = Inr m"
  shows "run_all rs = (concat (map fst rs), Inr (map (\<lambda>r. projr (snd r)) rs))"
  using assms
proof (induction rs)
  case Nil
  then show ?case by simp
next
  case (Cons r rs)
  obtain lg x where r: "r = (lg, x)" by (cases r)
  from Cons.prems r obtain m where m: "x = Inr m" by auto
  from Cons show ?case by (simp add: r m)
qed

lemma marginal_of_eq: "snd (compute_marginal_extreme n) = Inr m \<Longrightarrow> marginal_of n = m"
  by (simp add: marginal_of_def)

lemma run_all_parents:
  assumes "\<forall>p\<in>set ps. \<exists>m. snd (compute_marginal_extreme p) = Inr m"
  shows "run_all (map compute_marginal_extreme ps) =
     (concat (map (\<lambda>p. fst (compute_marginal_extreme p)) ps), Inr (map marginal_of ps))"
proof -
  have "map (\<lambda>r. projr (snd r)) (map compute_marginal_extreme ps) = map marginal_of ps"
    using assms by (auto simp: marginal_of_def)
  with run_all_Inr[of "map compute_marginal_extreme ps"] assms show ?thesis
    by (simp add: comp_def)
qed

lemma compute_root:
  "snd (compute_marginal_extreme (CredalNode nm [] tbl)) =
     (case map_of tbl [] of None \<Rightarrow> Inl KeyError | Some e \<Rightarrow> Inr (dict_of e))"
  by simp

lemma compute_parents:
  assumes "ps \<noteq> []"
    and "\<forall>p\<in>set ps. \<exists>m. snd (compute_marginal_extreme p) = Inr m"
  shows "compute_marginal_extreme (CredalNode nm ps tbl) =
     (nm # concat (map (\<lambda>p. fst (compute_marginal_extreme p)) ps),
      combine_parents tbl (map marginal_of ps))"
  using assms(1) by (simp add: run_all_parents[OF assms(2)])

lemma combine_parents_distinct:
  "combine_parents tbl pms = Inr m \<Longrightarrow> distinct (map fst m)"
  by (auto simp: combine_parents_def final_bounds_def Let_def distinct_dict_of
      split: list.splits sum.splits)

lemma compute_distinct:
  assumes "snd (compute_marginal_extreme n) = Inr m"
  shows "distinct (map fst m)"
proof (cases n)
  case (CredalNode nm ps tbl)
  show ?thesis
  proof (cases "ps = []")
    case True
    with assms CredalNode show ?thesis
      by (auto simp: distinct_dict_of split: option.splits)
  next
    case False
    with assms CredalNode show ?thesis
      by (auto simp: combine_parents_distinct split: prod.splits sum.splits)
  qed
qed

subsection \<open>The weights of the joint assignments\<close>

lemma choices_iff:
  "c \<in> set (choices pm) \<longleftrightarrow> list_all2 (\<lambda>x (s, l, u). x = l \<or> x = u) c pm"
  by (simp add: choices_def product_lists_set list_all2_map2 case_prod_unfold)

lemma choice_nth:
  "c \<in> set (choices pm) \<Longrightarrow> k < length pm \<Longrightarrow>
   c ! k = fst (snd (pm ! k)) \<or> c ! k = snd (snd (pm ! k))"
  by (auto simp: choices_iff list_all2_conv_all_nth case_prod_unfold)

lemma choice_nonneg:
  assumes "c \<in> set (choices pm)" and "nonneg_marginal pm" and "x \<in> set c"
  shows "0 \<le> x"
proof -
  from assms(3) obtain k where k: "k < length c" "x = c ! k"
    by (auto simp: in_set_conv_nth)
  with assms(1) have kpm: "k < length pm" by (simp add: length_choice)
  have "pm ! k \<in> set pm" using kpm by simp
  with assms(2) have "0 \<le> fst (snd (pm ! k)) \<and> 0 \<le> snd (snd (pm ! k))"
    by (auto simp: nonneg_marginal_def list_all_iff)
  with choice_nth[OF assms(1) kpm] k show ?thesis by auto
qed

lemma normalise_nth_bounds:
  assumes "\<And>x. x \<in> set v \<Longrightarrow> 0 \<le> x" and "k < length v"
  shows "0 \<le> normalise v ! k \<and> normalise v ! k \<le> 1"
proof -
  have vk: "0 \<le> v ! k" using assms by simp
  have le: "v ! k \<le> sum_list v"
    using assms by (intro member_le_sum_list) auto
  show ?thesis
  proof (cases "sum_list v > 0")
    case True
    with vk le assms(2) show ?thesis by (simp add: normalise_def)
  next
    case False
    with vk le have "v ! k = 0" by simp
    with False show ?thesis by (simp add: normalise_def)
  qed
qed

lemma extreme_lookup:
  assumes "distinct (map fst pm)" and "c \<in> set (choices pm)" and "k < length pm"
  shows "map_of (zip (map fst pm) (normalise c)) (fst (pm ! k)) = Some (normalise c ! k)"
  using map_of_zip_nth[of "map fst pm" "normalise c" k] assms
  by (simp add: length_normalise length_choice)

lemma extreme_value_bounds:
  assumes "nonneg_marginal pm" and "d \<in> set (extremes pm)" and "s \<in> fst ` set pm"
  shows "0 \<le> the (map_of d s) \<and> the (map_of d s) \<le> 1"
proof -
  from assms(2) obtain c where c: "c \<in> set (choices pm)"
    and d: "d = zip (map fst pm) (normalise c)"
    by (auto simp: extremes_def)
  from assms(3) obtain k where k: "k < length pm" "s = fst (pm ! k)"
    by (auto simp: in_set_conv_nth)
  have dist: "distinct (map fst pm)" using assms(1) by (simp add: nonneg_marginal_def)
  have "the (map_of d s) = normalise c ! k"
    by (simp add: d k extreme_lookup[OF dist c k(1)])
  moreover have "0 \<le> normalise c ! k \<and> normalise c ! k \<le> 1"
    using choice_nonneg[OF c assms(1)] k(1) c
    by (intro normalise_nth_bounds) (simp_all add: length_choice)
  ultimately show ?thesis by simp
qed

lemma weight_bounds:
  fixes c :: "dist list" and pms :: "marginal list" and a :: "state list"
  assumes "list_all2 (\<lambda>d pm. d \<in> set (extremes pm)) c pms"
    and "list_all2 (\<lambda>s pm. s \<in> fst ` set pm) a pms"
    and "\<forall>pm\<in>set pms. nonneg_marginal pm"
  shows "0 \<le> weight c a \<and> weight c a \<le> 1"
  using assms
proof (induction pms arbitrary: c a rule: list.induct)
  case Nil
  then show ?case by simp
next
  case (Cons pm pms)
  from Cons.prems(1) obtain d ds where c: "c = d # ds" and d: "d \<in> set (extremes pm)"
    and ds: "list_all2 (\<lambda>d pm. d \<in> set (extremes pm)) ds pms"
    by (auto simp: list_all2_Cons2)
  from Cons.prems(2) obtain s ss where a: "a = s # ss" and s: "s \<in> fst ` set pm"
    and ss: "list_all2 (\<lambda>s pm. s \<in> fst ` set pm) ss pms"
    by (auto simp: list_all2_Cons2)
  from Cons.prems(3) have pm: "nonneg_marginal pm" and rest: "\<forall>pm\<in>set pms. nonneg_marginal pm"
    by simp_all
  from Cons.IH[OF ds ss rest] have w: "0 \<le> weight ds ss" "weight ds ss \<le> 1" by simp_all
  from extreme_value_bounds[OF pm d s]
  have f: "0 \<le> the (map_of d s)" "the (map_of d s) \<le> 1" by simp_all
  show ?case
    using w f by (simp add: c a mult_le_one)
qed

lemma iterations_iff:
  "(c, a) \<in> set (iterations pms) \<longleftrightarrow>
     list_all2 (\<lambda>d pm. d \<in> set (extremes pm)) c pms \<and>
     list_all2 (\<lambda>s pm. s \<in> fst ` set pm) a pms"
proof -
  have "a \<in> set (product_lists (map (map fst) pms)) \<longleftrightarrow>
      list_all2 (\<lambda>s pm. s \<in> fst ` set pm) a pms"
    by (simp add: product_lists_set list_all2_map2)
  moreover have "c \<in> set (product_lists (map extremes pms)) \<longleftrightarrow>
      list_all2 (\<lambda>d pm. d \<in> set (extremes pm)) c pms"
    by (simp add: product_lists_set list_all2_map2)
  ultimately show ?thesis
    by (auto simp: iterations_def)
qed

lemma iteration_weight_bounds:
  assumes "(c, a) \<in> set (iterations pms)" and "\<forall>pm\<in>set pms. nonneg_marginal pm"
  shows "0 \<le> weight c a \<and> weight c a \<le> 1"
  using assms weight_bounds[of c pms a] by (simp add: iterations_iff)

subsection \<open>Validity of the computed bounds\<close>

lemma terms_nonempty:
  "low_terms tbl pms s = [] \<longleftrightarrow> iterations pms = []"
  "high_terms tbl pms s = [] \<longleftrightarrow> iterations pms = []"
  by (simp_all add: low_terms_def high_terms_def)

lemma bounds_valid:
  assumes cov: "\<forall>a\<in>set (product_lists (map (map fst) pms)).
             \<exists>e. map_of tbl a = Some e \<and>
                 (\<forall>s\<in>set ns. \<exists>i. map_of e s = Some i \<and> valid_interval i)"
    and nn: "\<forall>pm\<in>set pms. nonneg_marginal pm"
    and s: "s \<in> set ns"
  shows "valid_interval (low_bound tbl pms s, high_bound tbl pms s)"
proof (cases "iterations pms = []")
  case True
  then show ?thesis by (simp add: low_bound_def high_bound_def valid_interval_def)
next
  case False
  let ?iv = "\<lambda>a. the (map_of (the (map_of tbl a)) s)"
  have it: "0 \<le> weight c a \<and> weight c a \<le> 1 \<and> valid_interval (?iv a)"
    if "(c, a) \<in> set (iterations pms)" for c a
  proof -
    from that have "a \<in> set (product_lists (map (map fst) pms))"
      by (auto simp: iterations_def)
    with cov s have "valid_interval (?iv a)" by fastforce
    with iteration_weight_bounds[OF that nn] show ?thesis by simp
  qed
  have lo: "0 \<le> x" if "x \<in> set (low_terms tbl pms s)" for x
    using that it by (auto simp: low_terms_def valid_interval_def)
  have hi: "x \<le> 1" if "x \<in> set (high_terms tbl pms s)" for x
  proof -
    from that obtain c a where ca: "(c, a) \<in> set (iterations pms)"
      and x: "x = weight c a * snd (?iv a)"
      by (auto simp: high_terms_def)
    from it[OF ca] have "weight c a \<le> 1" "0 \<le> snd (?iv a)" "snd (?iv a) \<le> 1"
      by (auto simp: valid_interval_def)
    then show ?thesis unfolding x by (rule mult_le_one)
  qed
  obtain c a where ca: "(c, a) \<in> set (iterations pms)"
    using False by (cases "iterations pms") auto
  have l0: "weight c a * fst (?iv a) \<in> set (low_terms tbl pms s)"
    using ca by (force simp: low_terms_def)
  have h0: "weight c a * snd (?iv a) \<in> set (high_terms tbl pms s)"
    using ca by (force simp: high_terms_def)
  have "Min (set (low_terms tbl pms s)) \<le> weight c a * fst (?iv a)"
    using l0 by (intro Min_le) simp_all
  also have "\<dots> \<le> weight c a * snd (?iv a)"
    using it[OF ca] by (intro mult_left_mono) (simp_all add: valid_interval_def)
  also have "\<dots> \<le> Max (set (high_terms tbl pms s))"
    using h0 by (intro Max_ge) simp_all
  finally have mid: "Min (set (low_terms tbl pms s)) \<le> Max (set (high_terms tbl pms s))" .
  have "0 \<le> Min (set (low_terms tbl pms s))"
    using lo False by (simp add: terms_nonempty)
  moreover have "Max (set (high_terms tbl pms s)) \<le> 1"
    using hi False by (simp add: terms_nonempty)
  ultimately show ?thesis
    using mid False by (simp add: low_bound_def high_bound_def valid_interval_def)
qed

lemma case_option_ex:
  "(case x of None \<Rightarrow> False | Some i \<Rightarrow> P i) \<longleftrightarrow> (\<exists>i. x = Some i \<and> P i)"
  by (cases x) auto

lemma valid_nonneg:
  "distinct (map fst m) \<Longrightarrow> list_all (\<lambda>(s, i). valid_interval i) m \<Longrightarrow> nonneg_marginal m"
  by (auto simp: nonneg_marginal_def list_all_iff valid_interval_def)

lemma marginal_with_parents:
  assumes nonroot: "ps \<noteq> []"
    and valid: "valid_node (CredalNode nm ps tbl)"
    and ih: "\<And>p. p \<in> set ps \<Longrightarrow>
        snd (compute_marginal_extreme p) = Inr (marginal_of p) \<and>
        map fst (marginal_of p) = states_of p \<and>
        distinct (map fst (marginal_of p)) \<and>
        list_all (\<lambda>(s, i). valid_interval i) (marginal_of p)"
  shows "\<exists>first rest. tbl = first # rest \<and> distinct (map fst (snd first)) \<and>
     (\<forall>a\<in>set (product_lists (map (map fst) (map marginal_of ps))).
        \<exists>e. map_of tbl a = Some e \<and>
           (\<forall>s\<in>set (map fst (snd first)). \<exists>i. map_of e s = Some i \<and> valid_interval i)) \<and>
     (\<forall>pm\<in>set (map marginal_of ps). nonneg_marginal pm) \<and>
     snd (compute_marginal_extreme (CredalNode nm ps tbl)) =
       Inr (marginal_of (CredalNode nm ps tbl)) \<and>
     marginal_of (CredalNode nm ps tbl) =
       map (\<lambda>s. (s, low_bound tbl (map marginal_of ps) s, high_bound tbl (map marginal_of ps) s))
         (map fst (snd first))"
proof -
  from valid nonroot obtain first rest where
    tbl: "tbl = first # rest" and
    ns: "distinct (map fst (snd first))" and
    cov0: "list_all (\<lambda>a. case map_of tbl a of
                              None \<Rightarrow> False
                            | Some e \<Rightarrow>
                                list_all (\<lambda>s. case map_of e s of
                                                 None \<Rightarrow> False
                                               | Some i \<Rightarrow> valid_interval i)
                                  (map fst (snd first)))
                (product_lists (map states_of ps))"
    by (auto split: list.splits)
  let ?ns = "map fst (snd first)"
  let ?pms = "map marginal_of ps"
  have ih_run: "\<forall>p\<in>set ps. \<exists>m. snd (compute_marginal_extreme p) = Inr m"
    using ih by blast
  have ih_keys: "map fst (marginal_of p) = states_of p" if "p \<in> set ps" for p
    using ih[OF that] by blast
  have ih_dist1: "distinct (map fst (marginal_of p))" if "p \<in> set ps" for p
    using ih[OF that] by blast
  have ih_dist: "\<forall>pm\<in>set ?pms. distinct (map fst pm)"
    by (simp add: ih_dist1)
  have ih_valid: "list_all (\<lambda>(s, i). valid_interval i) (marginal_of p)" if "p \<in> set ps" for p
    using ih[OF that] by blast
  have keys: "map (map fst) ?pms = map states_of ps"
    using ih_keys by simp
  have cov: "\<forall>a\<in>set (product_lists (map (map fst) ?pms)).
           \<exists>e. map_of tbl a = Some e \<and>
               (\<forall>s\<in>set ?ns. \<exists>i. map_of e s = Some i \<and> valid_interval i)"
    unfolding keys using cov0
    by (simp add: list_all_iff case_option_ex)
  have nn: "\<forall>pm\<in>set ?pms. nonneg_marginal pm"
    by (simp add: valid_nonneg ih_dist1 ih_valid)
  have run: "compute_marginal_extreme (CredalNode nm ps tbl) =
     (nm # concat (map (\<lambda>p. fst (compute_marginal_extreme p)) ps),
      combine_parents tbl ?pms)"
    by (rule compute_parents[OF nonroot ih_run])
  have cp: "combine_parents tbl ?pms =
     Inr (map (\<lambda>s. (s, low_bound tbl ?pms s, high_bound tbl ?pms s)) ?ns)"
  proof (rule combine_parents_eq[OF tbl ns])
    show "\<forall>pm\<in>set ?pms. distinct (map fst pm)" by (rule ih_dist)
    show "\<forall>a\<in>set (product_lists (map (map fst) ?pms)).
           \<exists>e. map_of tbl a = Some e \<and> (\<forall>s\<in>set ?ns. \<exists>i. map_of e s = Some i)"
      using cov by blast
  qed
  have m: "marginal_of (CredalNode nm ps tbl) =
      map (\<lambda>s. (s, low_bound tbl ?pms s, high_bound tbl ?pms s)) ?ns"
    by (rule marginal_of_eq) (simp only: run cp snd_conv)
  have r: "snd (compute_marginal_extreme (CredalNode nm ps tbl))
      = Inr (marginal_of (CredalNode nm ps tbl))"
    by (simp only: run cp snd_conv m)
  show ?thesis using tbl ns cov nn r m by blast
qed

lemma valid_marginal:
  "valid_node n \<Longrightarrow>
   snd (compute_marginal_extreme n) = Inr (marginal_of n) \<and>
   map fst (marginal_of n) = states_of n \<and>
   distinct (map fst (marginal_of n)) \<and>
   list_all (\<lambda>(s, i). valid_interval i) (marginal_of n)"
proof (induction n)
  case (CredalNode nm ps tbl)
  show ?case
  proof (cases "ps = []")
    case True
    with CredalNode.prems obtain e where e: "map_of tbl [] = Some e"
      and d: "distinct (map fst e)" and v: "list_all (\<lambda>(s, i). valid_interval i) e"
      by (auto split: option.splits)
    have "snd (compute_marginal_extreme (CredalNode nm ps tbl)) = Inr e"
      by (simp add: True e dict_of_distinct[OF d])
    then show ?thesis
      using d v by (simp add: marginal_of_def True e)
  next
    case False
    have ps: "list_all valid_node ps" using CredalNode.prems False by simp
    have ih: "snd (compute_marginal_extreme p) = Inr (marginal_of p) \<and>
        map fst (marginal_of p) = states_of p \<and>
        distinct (map fst (marginal_of p)) \<and>
        list_all (\<lambda>(s, i). valid_interval i) (marginal_of p)" if "p \<in> set ps" for p
      using CredalNode.IH[OF that] ps that unfolding list_all_iff by blast
    from marginal_with_parents[OF False CredalNode.prems ih] obtain first rest where
      tbl: "tbl = first # rest" and ns: "distinct (map fst (snd first))" and
      cov: "\<forall>a\<in>set (product_lists (map (map fst) (map marginal_of ps))).
        \<exists>e. map_of tbl a = Some e \<and>
           (\<forall>s\<in>set (map fst (snd first)). \<exists>i. map_of e s = Some i \<and> valid_interval i)" and
      nn: "\<forall>pm\<in>set (map marginal_of ps). nonneg_marginal pm" and
      r: "snd (compute_marginal_extreme (CredalNode nm ps tbl)) =
       Inr (marginal_of (CredalNode nm ps tbl))" and
      m: "marginal_of (CredalNode nm ps tbl) =
       map (\<lambda>s. (s, low_bound tbl (map marginal_of ps) s, high_bound tbl (map marginal_of ps) s))
         (map fst (snd first))"
      by blast
    have v: "list_all (\<lambda>(s, i). valid_interval i) (marginal_of (CredalNode nm ps tbl))"
      unfolding m using bounds_valid[OF cov nn]
      by (simp add: list_all_iff)
    have k: "map fst (marginal_of (CredalNode nm ps tbl)) = states_of (CredalNode nm ps tbl)"
      unfolding m by (simp add: False tbl comp_def)
    have dd: "distinct (map fst (marginal_of (CredalNode nm ps tbl)))"
      unfolding m using ns by (simp add: comp_def)
    show ?thesis using r k dd v by blast
  qed
qed

lemma valid_parents:
  assumes "ps \<noteq> []" and "valid_node (CredalNode nm ps tbl)"
  shows "\<exists>first rest. tbl = first # rest \<and> distinct (map fst (snd first)) \<and>
     (\<forall>a\<in>set (product_lists (map (map fst) (map marginal_of ps))).
        \<exists>e. map_of tbl a = Some e \<and>
           (\<forall>s\<in>set (map fst (snd first)). \<exists>i. map_of e s = Some i \<and> valid_interval i)) \<and>
     (\<forall>pm\<in>set (map marginal_of ps). nonneg_marginal pm) \<and>
     snd (compute_marginal_extreme (CredalNode nm ps tbl)) =
       Inr (marginal_of (CredalNode nm ps tbl)) \<and>
     marginal_of (CredalNode nm ps tbl) =
       map (\<lambda>s. (s, low_bound tbl (map marginal_of ps) s, high_bound tbl (map marginal_of ps) s))
         (map fst (snd first))"
proof (rule marginal_with_parents[OF assms])
  fix p assume "p \<in> set ps"
  with assms have "valid_node p" by (simp add: list_all_iff)
  then show "snd (compute_marginal_extreme p) = Inr (marginal_of p) \<and>
        map fst (marginal_of p) = states_of p \<and>
        distinct (map fst (marginal_of p)) \<and>
        list_all (\<lambda>(s, i). valid_interval i) (marginal_of p)"
    by (rule valid_marginal)
qed

text \<open>
  C5: for a node with valid input tables (valid intervals, full coverage), the marginal
  computation returns a dictionary over the node's states in which every pair satisfies
  \<open>0 \<le> low \<le> high \<le> 1\<close>.
\<close>

theorem marginal_bounds_valid:
  assumes "valid_node n"
  shows "\<exists>m. snd (compute_marginal_extreme n) = Inr m \<and> map fst m = states_of n \<and>
           (\<forall>(s, l, u)\<in>set m. 0 \<le> l \<and> l \<le> u \<and> u \<le> 1)"
proof -
  from valid_marginal[OF assms] have
    "snd (compute_marginal_extreme n) = Inr (marginal_of n)"
    "map fst (marginal_of n) = states_of n"
    "\<forall>(s, l, u)\<in>set (marginal_of n). 0 \<le> l \<and> l \<le> u \<and> u \<le> 1"
    by (auto simp: list_all_iff valid_interval_def)
  then show ?thesis by blast
qed

lemma valid_fever: "valid_node fever"
  by (simp add: fever_def flu_def cold_def valid_interval_def)

theorem marginal_bounds_valid_witness:
  "valid_node fever \<and>
   snd (compute_marginal_extreme fever) \<noteq> Inl KeyError \<and>
   list_all (\<lambda>(s, l, u). 0 \<le> l \<and> l \<le> u \<and> u \<le> 1) (marginal_of fever)"
proof -
  from marginal_bounds_valid[OF valid_fever] obtain m where
    m: "snd (compute_marginal_extreme fever) = Inr m" and
    b: "\<forall>(s, l, u)\<in>set m. 0 \<le> l \<and> l \<le> u \<and> u \<le> 1"
    by blast
  have "marginal_of fever = m" by (rule marginal_of_eq[OF m])
  with m b valid_fever show ?thesis by (simp add: list_all_iff)
qed

subsection \<open>Root nodes\<close>

text \<open>
  C6: a node with an empty parent list returns its own entry for the empty tuple, every
  pair unmodified (the entry being a dictionary); without such an entry the lookup raises.
\<close>

theorem root_marginal_is_table_entry:
  assumes "parents n = []"
  shows "(map_of (credal_table n) [] = None \<longrightarrow>
            snd (compute_marginal_extreme n) = Inl KeyError) \<and>
         (\<forall>e. map_of (credal_table n) [] = Some e \<and> distinct (map fst e) \<longrightarrow>
            snd (compute_marginal_extreme n) = Inr e)"
  using assms by (cases n) (auto simp: dict_of_distinct)

theorem root_marginal_is_table_entry_witness:
  "parents flu = [] \<and>
   snd (compute_marginal_extreme flu) =
     Inr [(''Present'', (5/100, 1/10)), (''Absent'', (9/10, 95/100))]"
proof -
  have p: "parents flu = []" by (simp add: flu_def)
  have e: "map_of (credal_table flu) [] =
      Some [(''Present'', (5/100, 1/10)), (''Absent'', (9/10, 95/100))]"
    by (simp add: flu_def)
  have d: "distinct (map fst [(''Present'', (5/100 :: rat, 1/10 :: rat)),
      (''Absent'', (9/10, 95/100))])"
    by simp
  from root_marginal_is_table_entry[OF p] e d p show ?thesis by blast
qed

subsection \<open>Missing table entries\<close>

lemma product_lists_nonempty:
  "(\<forall>xs\<in>set xss. xs \<noteq> []) \<Longrightarrow> product_lists xss \<noteq> []"
  by (induction xss) (auto simp: concat_eq_Nil_conv)

lemma for_each_KeyError:
  assumes "\<And>x s. x \<in> set xs \<Longrightarrow> f x s = Inl KeyError \<or> (\<exists>s'. f x s = Inr s')"
    and "\<exists>x\<in>set xs. \<forall>s. f x s = Inl KeyError"
  shows "for_each f xs s = Inl KeyError"
  using assms
proof (induction xs arbitrary: s)
  case Nil
  then show ?case by simp
next
  case (Cons x xs)
  show ?case
  proof (cases "f x s")
    case (Inl e)
    with Cons.prems(1)[of x s] show ?thesis by simp
  next
    case (Inr s')
    with Cons.prems(2) have "\<exists>y\<in>set xs. \<forall>s. f y s = Inl KeyError" by auto
    with Cons.IH[of s'] Cons.prems(1) Inr show ?thesis by simp
  qed
qed

lemma for_each_update_state_cases:
  "for_each (update_state p e) ns b = Inl KeyError \<or>
   (\<exists>b'. for_each (update_state p e) ns b = Inr b')"
proof (induction ns arbitrary: b)
  case Nil
  then show ?case by simp
next
  case (Cons n ns)
  show ?case
  proof (cases "map_of e n")
    case None
    then show ?thesis by (cases b) (simp add: update_state_def)
  next
    case (Some i)
    obtain l u where "i = (l, u)" by (cases i)
    with Some Cons.IH show ?thesis by (simp add: update_state_eq)
  qed
qed

lemma visit_assignment_cases:
  assumes "list_all2 (\<lambda>d s. s \<in> fst ` set d) c a"
  shows "visit_assignment tbl ns c a b = Inl KeyError \<or>
         (\<exists>b'. visit_assignment tbl ns c a b = Inr b')"
  using for_each_update_state_cases
  by (auto simp: visit_assignment_def joint_prob_eq[OF assms] split: option.splits)

lemma visit_assignment_missing:
  assumes "list_all2 (\<lambda>d s. s \<in> fst ` set d) c a" and "map_of tbl a = None"
  shows "visit_assignment tbl ns c a b = Inl KeyError"
  by (simp add: visit_assignment_def joint_prob_eq[OF assms(1)] assms(2))

lemma combine_parents_missing:
  assumes pms: "\<forall>pm\<in>set pms. distinct (map fst pm)"
    and a: "a \<in> set (product_lists (map (map fst) pms))"
    and none: "map_of tbl a = None"
  shows "combine_parents tbl pms = Inl (if tbl = [] then StopIteration else KeyError)"
proof (cases tbl)
  case Nil
  then show ?thesis by (simp add: combine_parents_def)
next
  case (Cons first rest)
  let ?ns = "map fst (snd first)"
  have ext: "map_each extreme_points pms = Inr (map extremes pms)"
    using pms by (intro map_each_Inr) (simp add: extreme_points_eq)
  have "product_lists (map extremes pms) \<noteq> []"
    by (intro product_lists_nonempty) (auto simp: extremes_nonempty)
  then obtain c where c: "c \<in> set (product_lists (map extremes pms))"
    by (cases "product_lists (map extremes pms)") auto
  have it: "(c, a) \<in> set (iterations pms)"
    using c a by (auto simp: iterations_def)
  have "for_each (\<lambda>(c, a). visit_assignment tbl ?ns c a) (iterations pms)
          (\<lambda>s. None, \<lambda>s. None) = Inl KeyError"
  proof (rule for_each_KeyError)
    fix x :: "dist list \<times> state list" and s
    assume "x \<in> set (iterations pms)"
    then have "list_all2 (\<lambda>d s. s \<in> fst ` set d) (fst x) (snd x)"
      by (auto simp: iterations_def assignment_in_combo)
    from visit_assignment_cases[OF this, of tbl ?ns s]
    show "(case x of (c, a) \<Rightarrow> visit_assignment tbl ?ns c a) s = Inl KeyError \<or>
          (\<exists>s'. (case x of (c, a) \<Rightarrow> visit_assignment tbl ?ns c a) s = Inr s')"
      by (simp add: case_prod_unfold)
  next
    have "\<forall>s. visit_assignment tbl ?ns c a s = Inl KeyError"
      using visit_assignment_missing[OF assignment_in_combo[OF c a] none] by simp
    with it show "\<exists>x\<in>set (iterations pms).
        \<forall>s. (case x of (c, a) \<Rightarrow> visit_assignment tbl ?ns c a) s = Inl KeyError"
      by force
  qed
  then have "for_each (\<lambda>(c, a). visit_assignment (first # rest) ?ns c a) (iterations pms)
          (\<lambda>s. None, \<lambda>s. None) = Inl KeyError"
    by (simp add: Cons)
  then show ?thesis
    using ext by (simp add: combine_parents_def Cons visit_combo_loop Let_def)
qed

text \<open>
  C7, as stated, fails: the Fever node of the example with the empty table that its
  constructor gives it lacks the entry for \<open>('Present', 'Present')\<close>, which the
  enumeration reaches, and the computation raises \<open>StopIteration\<close> at line 53, before any
  lookup in the table, not a lookup failure.
\<close>

theorem empty_table_raises_stop_iteration:
  "parents fever_empty = [flu, cold] \<and> credal_table fever_empty = [] \<and>
   snd (compute_marginal_extreme flu) =
     Inr [(''Present'', (1/20, 1/10)), (''Absent'', (9/10, 19/20))] \<and>
   snd (compute_marginal_extreme cold) =
     Inr [(''Present'', (1/10, 1/5)), (''Absent'', (4/5, 9/10))] \<and>
   map_of (credal_table fever_empty) [''Present'', ''Present''] = None \<and>
   snd (compute_marginal_extreme fever_empty) = Inl StopIteration"
  by (simp add: fever_empty_def flu_def cold_def dict_of_def combine_parents_def)

text \<open>
  C7, amended: for a node with parents whose marginals are computed, a joint assignment of
  the parents' states that has no entry in the node's table makes the computation raise an
  exception to the caller, and nothing is defaulted: \<open>KeyError\<close> from the lookup of line 82
  when the table has at least one entry, \<open>StopIteration\<close> from line 53 when the table is
  empty.
\<close>

theorem missing_entry_raises:
  assumes "ps \<noteq> []"
    and "\<forall>p\<in>set ps. \<exists>m. snd (compute_marginal_extreme p) = Inr m"
    and "a \<in> set (product_lists (map (map fst) (map marginal_of ps)))"
    and "map_of tbl a = None"
  shows "snd (compute_marginal_extreme (CredalNode nm ps tbl)) =
           Inl (if tbl = [] then StopIteration else KeyError)"
proof -
  have "distinct (map fst (marginal_of p))" if "p \<in> set ps" for p
  proof -
    from assms(2) that obtain m where m: "snd (compute_marginal_extreme p) = Inr m"
      by blast
    from compute_distinct[OF m] show ?thesis by (simp add: marginal_of_eq[OF m])
  qed
  then have "\<forall>pm\<in>set (map marginal_of ps). distinct (map fst pm)"
    by simp
  from combine_parents_missing[OF this assms(3,4)] show ?thesis
    by (simp only: compute_parents[OF assms(1,2)] snd_conv)
qed

theorem missing_entry_raises_witness:
  "snd (compute_marginal_extreme fever_gap) = Inl KeyError \<and>
   snd (compute_marginal_extreme (CredalNode ''Fever'' [flu, cold] [])) = Inl StopIteration"
proof -
  have f: "snd (compute_marginal_extreme flu) =
      Inr [(''Present'', (5/100, 1/10)), (''Absent'', (9/10, 95/100))]"
    by (simp add: flu_def dict_of_def)
  have c: "snd (compute_marginal_extreme cold) =
      Inr [(''Present'', (1/10, 2/10)), (''Absent'', (8/10, 9/10))]"
    by (simp add: cold_def dict_of_def)
  have ps: "\<forall>p\<in>set [flu, cold]. \<exists>m. snd (compute_marginal_extreme p) = Inr m"
    using f c by simp
  have a: "[''Absent'', ''Absent''] \<in>
      set (product_lists (map (map fst) (map marginal_of [flu, cold])))"
    by (simp add: marginal_of_eq[OF f] marginal_of_eq[OF c])
  have "snd (compute_marginal_extreme fever_gap) = Inl KeyError"
    unfolding fever_gap_def
    using missing_entry_raises[OF _ ps a, of _ "''Fever''"] by simp
  moreover have "snd (compute_marginal_extreme (CredalNode ''Fever'' [flu, cold] [])) =
      Inl StopIteration"
    using missing_entry_raises[OF _ ps a, of "[]" "''Fever''"] by simp
  ultimately show ?thesis by simp
qed

subsection \<open>Degenerate corners\<close>

lemma extreme_of_returns: "\<exists>d. extreme_of states choice = Inr d"
proof (cases "sum_list (map snd (dict_of (zip states choice))) > 0")
  case True
  then have nz: "sum_list (map snd (dict_of (zip states choice))) \<noteq> 0" by simp
  show ?thesis
    using True by (simp add: extreme_of_def Let_def map_each_truediv[OF nz])
next
  case False
  then show ?thesis by (simp add: extreme_of_def Let_def)
qed

lemma map_each_returns:
  "(\<And>x. x \<in> set xs \<Longrightarrow> \<exists>y. f x = Inr y) \<Longrightarrow> \<exists>ys. map_each f xs = Inr ys"
proof (induction xs)
  case Nil
  then show ?case by simp
next
  case (Cons x xs)
  from Cons.prems[of x] obtain y where "f x = Inr y" by auto
  moreover from Cons obtain ys where "map_each f xs = Inr ys" by auto
  ultimately show ?case by simp
qed

lemma extreme_points_returns: "\<exists>es. extreme_points pm = Inr es"
  unfolding extreme_points_def by (intro map_each_returns extreme_of_returns)

lemma zero_corner:
  assumes "c \<in> set (choices pm)" and "nonneg_marginal pm" and "sum_list c = 0"
    and "x \<in> set c"
  shows "x = 0"
proof -
  have nn: "\<And>y. y \<in> set c \<Longrightarrow> 0 \<le> y"
    using choice_nonneg[OF assms(1,2)] .
  have "x \<le> sum_list c" using nn assms(4) by (intro member_le_sum_list) auto
  with nn[OF assms(4)] assms(3) show ?thesis by simp
qed

lemma weight_zero:
  assumes "list_all2 (\<lambda>d s. s \<in> fst ` set d) combo a"
    and "i < length combo" and "\<forall>(s, v)\<in>set (combo ! i). v = 0"
  shows "weight combo a = 0"
  using assms
proof (induction arbitrary: i rule: list_all2_induct)
  case Nil
  then show ?case by simp
next
  case (Cons d ds s ss)
  show ?case
  proof (cases i)
    case 0
    from Cons.hyps(1) obtain v where v: "map_of d s = Some v"
      by (metis map_of_eq_None_iff not_Some_eq)
    then have "(s, v) \<in> set d" by (rule map_of_SomeD)
    with Cons.prems(2) 0 have "v = 0" by auto
    with v show ?thesis by simp
  next
    case (Suc j)
    with Cons.prems have "j < length ds" "\<forall>(s, v)\<in>set (ds ! j). v = 0" by simp_all
    from Cons.IH[OF this] show ?thesis by simp
  qed
qed

text \<open>
  C8: the enumeration of extreme points returns for every parent marginal, so no division
  by zero is raised. For a marginal with non-negative bounds, a corner whose coordinates sum
  to 0 is returned as chosen, without the division; all its coordinates are 0, and every
  joint assignment of a combination that contains it has probability 0.
\<close>

theorem degenerate_corner_not_renormalised:
  assumes "nonneg_marginal pm"
  shows "(\<exists>es. extreme_points pm = Inr es) \<and>
         (\<forall>c\<in>set (choices pm). sum_list c = 0 \<longrightarrow>
            extreme_of (map fst pm) c = Inr (zip (map fst pm) c) \<and>
            (\<forall>x\<in>set c. x = 0) \<and>
            (\<forall>combo a. zip (map fst pm) c \<in> set combo \<and>
                       a \<in> set (product_lists (map (map fst) combo)) \<longrightarrow>
                       joint_prob 1 combo a = Inr 0))"
proof (intro conjI ballI impI allI)
  show "\<exists>es. extreme_points pm = Inr es" by (rule extreme_points_returns)
next
  fix c assume c: "c \<in> set (choices pm)" and z: "sum_list c = 0"
  have d: "distinct (map fst pm)" using assms by (simp add: nonneg_marginal_def)
  show "extreme_of (map fst pm) c = Inr (zip (map fst pm) c)"
    using extreme_of_eq[OF d, of c] c z by (simp add: length_choice normalise_def)
next
  fix c x assume "c \<in> set (choices pm)" "sum_list c = 0" "x \<in> set c"
  then show "x = 0" using zero_corner assms by blast
next
  fix c combo a
  assume c: "c \<in> set (choices pm)" and z: "sum_list c = 0"
    and ca: "zip (map fst pm) c \<in> set combo \<and> a \<in> set (product_lists (map (map fst) combo))"
  from ca obtain i where i: "i < length combo" "combo ! i = zip (map fst pm) c"
    by (auto simp: in_set_conv_nth)
  have zero: "\<forall>(s, v)\<in>set (combo ! i). v = 0"
    unfolding i(2) using zero_corner[OF c assms z] by (auto dest: set_zip_rightD)
  have "list_all2 (\<lambda>s ks. s \<in> set ks) a (map (map fst) combo)"
    using ca by (simp add: product_lists_set)
  then have "list_all2 (\<lambda>s d. s \<in> set (map fst d)) a combo"
    by (simp add: list_all2_map2)
  then have l: "list_all2 (\<lambda>d s. s \<in> fst ` set d) combo a"
    by (auto simp: list_all2_conv_all_nth)
  show "joint_prob 1 combo a = Inr 0"
    by (simp add: joint_prob_eq[OF l] weight_zero[OF l i(1) zero])
qed

theorem degenerate_corner_not_renormalised_witness:
  "nonneg_marginal zero_marginal \<and>
   extreme_of [''Present'', ''Absent''] [0, 0] = Inr [(''Present'', 0), (''Absent'', 0)] \<and>
   joint_prob 1 [[(''Present'', 0), (''Absent'', 0)]] [''Absent''] = Inr 0"
proof -
  have nn: "nonneg_marginal zero_marginal"
    by (simp add: nonneg_marginal_def zero_marginal_def)
  have c: "[0, 0] \<in> set (choices zero_marginal)"
    by (simp add: choices_def zero_marginal_def)
  have k: "map fst zero_marginal = [''Present'', ''Absent'']"
    by (simp add: zero_marginal_def)
  have a: "[''Absent''] \<in> set (product_lists (map (map fst) [[(''Present'', 0::rat), (''Absent'', 0)]]))"
    by simp
  from degenerate_corner_not_renormalised[OF nn] c
  have "extreme_of (map fst zero_marginal) [0, 0] = Inr (zip (map fst zero_marginal) [0, 0]) \<and>
        (\<forall>combo a. zip (map fst zero_marginal) [0, 0] \<in> set combo \<and>
                       a \<in> set (product_lists (map (map fst) combo)) \<longrightarrow>
                       joint_prob 1 combo a = Inr 0)"
    by fastforce
  then have "extreme_of [''Present'', ''Absent''] [0, 0] = Inr [(''Present'', 0), (''Absent'', 0)]"
    and "\<And>combo a. [(''Present'', 0), (''Absent'', 0)] \<in> set combo \<Longrightarrow>
           a \<in> set (product_lists (map (map fst) combo)) \<Longrightarrow> joint_prob 1 combo a = Inr 0"
    by (simp_all add: k)
  from this(1) this(2)[OF _ a] nn show ?thesis by simp
qed

subsection \<open>The medical diagnosis example\<close>

lemma flu_eval:
  "compute_marginal_extreme flu =
     ([''Flu''], Inr [(''Present'', (1/20, 1/10)), (''Absent'', (9/10, 19/20))])"
  by (simp add: flu_def dict_of_def)

lemma cold_eval:
  "compute_marginal_extreme cold =
     ([''Cold''], Inr [(''Present'', (1/10, 1/5)), (''Absent'', (4/5, 9/10))])"
  by (simp add: cold_def dict_of_def)

lemma flu_extremes:
  "extreme_points [(''Present'', (1/20, 1/10)), (''Absent'', (9/10, 19/20))] =
     Inr [[(''Present'', 1/19), (''Absent'', 18/19)],
          [(''Present'', 1/20), (''Absent'', 19/20)],
          [(''Present'', 1/10), (''Absent'', 9/10)],
          [(''Present'', 2/21), (''Absent'', 19/21)]]"
  by (simp add: extreme_points_def extreme_of_def dict_of_def truediv_def)

lemma cold_extremes:
  "extreme_points [(''Present'', (1/10, 1/5)), (''Absent'', (4/5, 9/10))] =
     Inr [[(''Present'', 1/9), (''Absent'', 8/9)],
          [(''Present'', 1/10), (''Absent'', 9/10)],
          [(''Present'', 1/5), (''Absent'', 4/5)],
          [(''Present'', 2/11), (''Absent'', 9/11)]]"
  by (simp add: extreme_points_def extreme_of_def dict_of_def truediv_def)

lemma fever_eval:
  "compute_marginal_extreme fever =
     ([''Fever'', ''Flu'', ''Cold''],
      Inr [(''Present'', (0, 323/2000)), (''Absent'', (0, 171/200))])"
  unfolding fever_def
  by (simp add: flu_eval cold_eval combine_parents_def flu_extremes cold_extremes
      visit_combo_def visit_assignment_def update_state_def final_bounds_def dict_of_def)

lemma cough_eval:
  "compute_marginal_extreme cough =
     ([''Cough'', ''Flu'', ''Cold''],
      Inr [(''Present'', (0, 133/1000)), (''Absent'', (1/4000, 171/200))])"
  unfolding cough_def
  by (simp add: flu_eval cold_eval combine_parents_def flu_extremes cold_extremes
      visit_combo_def visit_assignment_def update_state_def final_bounds_def dict_of_def)

lemma medical_network_nodes: "map snd medical_network = [flu, cold, fever, cough]"
  by (simp add: medical_network_def add_node_def flu_def cold_def fever_def cough_def)

lemma node_names:
  "name flu = ''Flu''" "name cold = ''Cold''" "name fever = ''Fever''" "name cough = ''Cough''"
  by (simp_all add: flu_def cold_def fever_def cough_def)

lemma propagate_medical:
  "propagate medical_network =
     ([''Flu'', ''Cold'', ''Fever'', ''Flu'', ''Cold'', ''Cough'', ''Flu'', ''Cold''],
      Inr [(''Flu'', [(''Present'', (1/20, 1/10)), (''Absent'', (9/10, 19/20))]),
           (''Cold'', [(''Present'', (1/10, 1/5)), (''Absent'', (4/5, 9/10))]),
           (''Fever'', [(''Present'', (0, 323/2000)), (''Absent'', (0, 171/200))]),
           (''Cough'', [(''Present'', (0, 133/1000)), (''Absent'', (1/4000, 171/200))])])"
  by (simp add: propagate_def medical_network_nodes flu_eval cold_eval fever_eval cough_eval
      node_names)

text \<open>
  C1, as stated, fails: full propagation of the medical diagnosis network gives Fever
  \<open>Present\<close> the lower bound 0, which is not strictly greater than 0.
\<close>

theorem fever_present_lower_bound_is_zero:
  "map_option fst (propagated medical_network ''Fever'' ''Present'') = Some 0"
  by (simp add: propagated_def propagate_medical)

text \<open>
  C1, amended: full propagation of the medical diagnosis network gives Fever \<open>Present\<close>
  the bounds \<open>(0, 323/2000)\<close>, within \<open>[0, 1]\<close>: the lower bound is exactly 0, the
  minimum of the scaled lower endpoints (the entry for \<open>('Absent', 'Absent')\<close> contributes
  \<open>prob * 0\<close>), and the upper bound is strictly below 1.
\<close>

theorem fever_present_bounds:
  "propagated medical_network ''Fever'' ''Present'' = Some (0, 323 / 2000)"
  by (simp add: propagated_def propagate_medical)

subsection \<open>The calls made by one propagation\<close>

lemma run_all_Inr_iff:
  assumes "run_all rs = (lg, Inr xs)"
  shows "(\<forall>r\<in>set rs. \<exists>m. snd r = Inr m) \<and> lg = concat (map fst rs)"
  using assms
proof (induction rs arbitrary: lg xs rule: run_all.induct)
  case 1
  then show ?case by simp
next
  case (2 lg0 e rs)
  then show ?case by simp
next
  case (3 lg0 x rs)
  then show ?case
    by (auto split: prod.splits sum.splits)
qed

lemma compute_calls:
  "snd (compute_marginal_extreme n) = Inr m \<Longrightarrow> fst (compute_marginal_extreme n) = calls n"
proof (induction n arbitrary: m)
  case (CredalNode nm ps tbl)
  show ?case
  proof (cases "ps = []")
    case True
    then show ?thesis by simp
  next
    case False
    obtain lg r where ra: "run_all (map compute_marginal_extreme ps) = (lg, r)"
      by (cases "run_all (map compute_marginal_extreme ps)")
    with CredalNode.prems False obtain pms where r: "r = Inr pms"
      by (cases r) auto
    from run_all_Inr_iff[OF ra[unfolded r]]
    have all: "\<forall>p\<in>set ps. \<exists>m. snd (compute_marginal_extreme p) = Inr m"
      and lg: "lg = concat (map fst (map compute_marginal_extreme ps))"
      by auto
    have mm: "map fst (map compute_marginal_extreme ps) = map calls ps"
      using all CredalNode.IH by auto
    have "lg = concat (map calls ps)" unfolding lg mm by (rule refl)
    then show ?thesis using False ra r by simp
  qed
qed

lemma propagate_loop_calls:
  "snd (propagate_loop ns ms) = Inr r \<Longrightarrow>
   fst (propagate_loop ns ms) = concat (map calls ns)"
proof (induction ns arbitrary: ms r)
  case Nil
  then show ?case by simp
next
  case (Cons n ns)
  obtain lg x where c: "compute_marginal_extreme n = (lg, x)"
    by (cases "compute_marginal_extreme n")
  with Cons.prems obtain m where x: "x = Inr m" by (cases x) auto
  have lg: "lg = calls n" using compute_calls[of n m] c x by simp
  obtain lg' r' where p: "propagate_loop ns (AList.update (name n) m ms) = (lg', r')"
    by (cases "propagate_loop ns (AList.update (name n) m ms)")
  with Cons.prems c x have "r' = Inr r" by simp
  with Cons.IH[of "AList.update (name n) m ms" r] p have "lg' = concat (map calls ns)"
    by simp
  with lg c x p show ?case by simp
qed

text \<open>
  C3, as stated, fails: in one \<open>propagate()\<close> call on the medical diagnosis network the
  marginal of \<open>Flu\<close> is computed three times (once from the registry and once as a parent
  of each of \<open>Fever\<close> and \<open>Cough\<close>).
\<close>

theorem flu_computed_three_times:
  "count_list (fst (propagate medical_network)) ''Flu'' = 3"
  by (simp add: propagate_medical)

text \<open>
  C3, amended: nothing is memoized. When \<open>propagate()\<close> returns, the computations it
  started are, for each node of the registry in turn, the node followed by the computations
  of each of its parents, recursively: a node is computed once for each path that reaches
  it.
\<close>

theorem propagate_calls_every_path:
  assumes "snd (propagate nodes) = Inr ms"
  shows "fst (propagate nodes) = concat (map (\<lambda>(nm, n). calls n) nodes)"
  using propagate_loop_calls[of "map snd nodes" "[]" ms] assms
  by (simp add: propagate_def comp_def case_prod_unfold)

theorem propagate_calls_every_path_witness:
  "snd (propagate medical_network) \<noteq> Inl KeyError \<and>
   fst (propagate medical_network) =
     [''Flu'', ''Cold'', ''Fever'', ''Flu'', ''Cold'', ''Cough'', ''Flu'', ''Cold''] \<and>
   concat (map (\<lambda>(nm, n). calls n) medical_network) =
     [''Flu'', ''Cold'', ''Fever'', ''Flu'', ''Cold'', ''Cough'', ''Flu'', ''Cold'']"
proof -
  have r: "snd (propagate medical_network) =
      Inr [(''Flu'', [(''Present'', (1/20, 1/10)), (''Absent'', (9/10, 19/20))]),
           (''Cold'', [(''Present'', (1/10, 1/5)), (''Absent'', (4/5, 9/10))]),
           (''Fever'', [(''Present'', (0, 323/2000)), (''Absent'', (0, 171/200))]),
           (''Cough'', [(''Present'', (0, 133/1000)), (''Absent'', (1/4000, 171/200))])]"
    by (simp add: propagate_medical)
  from propagate_calls_every_path[OF r] r show ?thesis
    by (simp add: propagate_medical)
qed

subsection \<open>Exact arithmetic as the rounding that changes nothing\<close>

lemma foldl_add: "foldl (\<lambda>acc v. acc + v) (a :: rat) vs = a + sum_list vs"
  by (induction vs arbitrary: a) simp_all

lemma fl_sum_exact: "fl_sum (\<lambda>x. x) vs = sum_list vs"
  by (simp add: fl_sum_def foldl_add)

lemma fl_extreme_of_exact: "fl_extreme_of (\<lambda>x. x) = extreme_of"
  by (intro ext) (simp add: fl_extreme_of_def extreme_of_def fl_sum_exact)

lemma fl_extreme_points_exact: "fl_extreme_points (\<lambda>x. x) = extreme_points"
  by (intro ext) (simp add: fl_extreme_points_def extreme_points_def fl_extreme_of_exact)

lemma fl_joint_prob_exact: "fl_joint_prob (\<lambda>x. x) p combo a = joint_prob p combo a"
  by (induction p combo a rule: joint_prob.induct) (simp_all split: option.splits)

lemma fl_update_state_exact: "fl_update_state (\<lambda>x. x) = update_state"
  by (intro ext) (simp add: fl_update_state_def update_state_def)

lemma fl_visit_assignment_exact: "fl_visit_assignment (\<lambda>x. x) = visit_assignment"
  unfolding fl_visit_assignment_def visit_assignment_def fl_joint_prob_exact
    fl_update_state_exact
  by (rule refl)

lemma fl_visit_combo_exact: "fl_visit_combo (\<lambda>x. x) = visit_combo"
  by (intro ext) (simp add: fl_visit_combo_def visit_combo_def fl_visit_assignment_exact)

lemma fl_combine_parents_exact: "fl_combine_parents (\<lambda>x. x) = combine_parents"
  unfolding fl_combine_parents_def combine_parents_def fl_extreme_points_exact
    fl_visit_combo_exact
  by (rule refl)

lemma fl_compute_exact:
  "fl_compute_marginal_extreme (\<lambda>x. x) n = compute_marginal_extreme n"
proof (induction n)
  case (CredalNode nm ps tbl)
  then have "map (fl_compute_marginal_extreme (\<lambda>x. x)) ps = map compute_marginal_extreme ps"
    by simp
  then show ?case
    unfolding fl_compute_marginal_extreme.simps compute_marginal_extreme.simps
      fl_combine_parents_exact
    by (simp only:)
qed

subsection \<open>Widening the intervals\<close>

lemma sum_list_others:
  fixes v :: "rat list"
  assumes "k < length v"
  shows "sum_list (v[k := 0]) = sum_list v - v ! k"
  using assms
proof (induction v arbitrary: k)
  case Nil
  then show ?case by simp
next
  case (Cons a v)
  then show ?case by (cases k) simp_all
qed

lemma normalise_nth_mono:
  fixes v v' :: "rat list"
  assumes len: "length v = length v'" and k: "k < length v"
    and nn: "\<And>x. x \<in> set v \<Longrightarrow> 0 \<le> x" and nn': "\<And>x. x \<in> set v' \<Longrightarrow> 0 \<le> x"
    and at: "v' ! k \<le> v ! k"
    and others: "\<And>j. j < length v \<Longrightarrow> j \<noteq> k \<Longrightarrow> v ! j \<le> v' ! j"
  shows "normalise v' ! k \<le> normalise v ! k"
proof -
  define x where "x = v ! k"
  define x' where "x' = v' ! k"
  define R where "R = sum_list (v[k := 0])"
  define R' where "R' = sum_list (v'[k := 0])"
  have k': "k < length v'" using k len by simp
  have T: "sum_list v = x + R" using sum_list_others[OF k] by (simp add: R_def x_def)
  have T': "sum_list v' = x' + R'" using sum_list_others[OF k'] by (simp add: R'_def x'_def)
  have x0: "0 \<le> x" using nn k by (simp add: x_def)
  have x'0: "0 \<le> x'" using nn' k' by (simp add: x'_def)
  have R0: "0 \<le> R" unfolding R_def
    using nn by (intro sum_list_nonneg) (auto dest!: set_update_subset_insert[THEN subsetD])
  have RR: "R \<le> R'" unfolding R_def R'_def
  proof (rule sum_list_mono2)
    show "length (v[k := 0]) = length (v'[k := 0])" using len by simp
    fix i show "i < length (v[k := 0]) \<longrightarrow> v[k := 0] ! i \<le> v'[k := 0] ! i"
      using others[of i] len by (cases "i = k") simp_all
  qed
  have xx: "x' \<le> x" using at by (simp add: x_def x'_def)
  have low: "0 \<le> normalise v ! k"
    using normalise_nth_bounds[of v k] nn k by simp
  show ?thesis
  proof (cases "sum_list v' > 0")
    case False
    with T' x'0 R0 RR have "x' = 0" by simp
    with False low show ?thesis by (simp add: normalise_def x'_def)
  next
    case pos': True
    show ?thesis
    proof (cases "sum_list v > 0")
      case False
      with T x0 R0 have "x = 0" by simp
      with xx x'0 have "x' = 0" by simp
      with False \<open>x = 0\<close> pos' k k' show ?thesis
        by (simp add: normalise_def x_def[symmetric] x'_def[symmetric])
    next
      case True
      have "x' * R \<le> x * R'" using xx RR x0 x'0 R0 by (intro mult_mono) simp_all
      then have "x' * (x + R) \<le> x * (x' + R')" by (simp add: algebra_simps)
      with True pos' have "x' / (x' + R') \<le> x / (x + R)"
        unfolding T T' by (simp add: field_simps)
      with True pos' k k' show ?thesis
        by (simp add: normalise_def x_def[symmetric] x'_def[symmetric] T[symmetric] T'[symmetric])
    qed
  qed
qed

lemma wider_length: "wider m m' \<Longrightarrow> length m = length m'"
  by (simp add: wider_def list_all2_lengthD)

lemma wider_nth:
  assumes "wider m m'" and "k < length m"
  shows "fst (m' ! k) = fst (m ! k)"
    and "fst (snd (m' ! k)) \<le> fst (snd (m ! k))"
    and "snd (snd (m ! k)) \<le> snd (snd (m' ! k))"
  using assms by (auto simp: wider_def list_all2_conv_all_nth case_prod_unfold)

lemma wider_keys: "wider m m' \<Longrightarrow> map fst m' = map fst m"
  by (auto simp: wider_length wider_nth intro!: nth_equalityI)

lemma valid_nth:
  assumes "list_all (\<lambda>(s, i). valid_interval i) pm" and "k < length pm"
  shows "0 \<le> fst (snd (pm ! k))" and "fst (snd (pm ! k)) \<le> snd (snd (pm ! k))"
  using assms by (auto simp: list_all_length valid_interval_def case_prod_unfold)

lemma corner_choice:
  assumes "k < length pm"
  shows "(map (snd \<circ> snd) pm)[k := fst (snd (pm ! k))] \<in> set (choices pm)"
    and "(map (fst \<circ> snd) pm)[k := snd (snd (pm ! k))] \<in> set (choices pm)"
  using assms
  by (auto simp: choices_iff list_all2_conv_all_nth nth_list_update case_prod_unfold)

lemma extreme_member: "c \<in> set (choices pm) \<Longrightarrow> zip (map fst pm) (normalise c) \<in> set (extremes pm)"
  by (simp add: extremes_def)

lemma extreme_lower:
  assumes w: "wider pm pm'"
    and v: "list_all (\<lambda>(s, i). valid_interval i) pm" and dist: "distinct (map fst pm)"
    and nn': "nonneg_marginal pm'"
    and d: "d \<in> set (extremes pm)" and s: "s \<in> fst ` set pm"
  shows "\<exists>d'\<in>set (extremes pm'). 0 \<le> the (map_of d' s) \<and> the (map_of d' s) \<le> the (map_of d s)"
proof -
  from d obtain c where c: "c \<in> set (choices pm)" and dc: "d = zip (map fst pm) (normalise c)"
    by (auto simp: extremes_def)
  from s obtain k where k: "k < length pm" and sk: "s = fst (pm ! k)"
    by (auto simp: in_set_conv_nth)
  have k': "k < length pm'" using k wider_length[OF w] by simp
  have sk': "s = fst (pm' ! k)" using wider_nth(1)[OF w k] sk by simp
  have dist': "distinct (map fst pm')" using nn' by (simp add: nonneg_marginal_def)
  have nn: "nonneg_marginal pm" by (rule valid_nonneg[OF dist v])
  define c' where "c' = (map (snd \<circ> snd) pm')[k := fst (snd (pm' ! k))]"
  have c': "c' \<in> set (choices pm')" unfolding c'_def by (rule corner_choice(1)[OF k'])
  have lc: "length c = length pm" "length c' = length pm'"
    using c c' by (simp_all add: length_choice)
  have val: "the (map_of d s) = normalise c ! k"
    by (simp add: dc sk extreme_lookup[OF dist c k])
  have val': "the (map_of (zip (map fst pm') (normalise c')) s) = normalise c' ! k"
    by (simp add: sk' extreme_lookup[OF dist' c' k'])
  have at: "c' ! k \<le> c ! k"
  proof -
    have "c' ! k = fst (snd (pm' ! k))" using k' by (simp add: c'_def)
    also have "\<dots> \<le> fst (snd (pm ! k))" by (rule wider_nth(2)[OF w k])
    also have "\<dots> \<le> c ! k" using choice_nth[OF c k] valid_nth(2)[OF v k] by auto
    finally show ?thesis .
  qed
  have others: "c ! j \<le> c' ! j" if "j < length c" "j \<noteq> k" for j
  proof -
    have j: "j < length pm" using that lc by simp
    have "c ! j \<le> snd (snd (pm ! j))" using choice_nth[OF c j] valid_nth(2)[OF v j] by auto
    also have "\<dots> \<le> snd (snd (pm' ! j))" by (rule wider_nth(3)[OF w j])
    also have "\<dots> = c' ! j" using j that wider_length[OF w] by (simp add: c'_def)
    finally show ?thesis .
  qed
  have "normalise c' ! k \<le> normalise c ! k"
  proof (rule normalise_nth_mono)
    show "length c = length c'" using lc wider_length[OF w] by simp
    show "k < length c" using k lc by simp
    show "\<And>x. x \<in> set c \<Longrightarrow> 0 \<le> x" using choice_nonneg[OF c nn] .
    show "\<And>x. x \<in> set c' \<Longrightarrow> 0 \<le> x" using choice_nonneg[OF c' nn'] .
    show "c' ! k \<le> c ! k" by (rule at)
    show "\<And>j. j < length c \<Longrightarrow> j \<noteq> k \<Longrightarrow> c ! j \<le> c' ! j" by (rule others)
  qed
  moreover have "0 \<le> normalise c' ! k"
    using normalise_nth_bounds[of c' k] choice_nonneg[OF c' nn'] k' lc by simp
  ultimately show ?thesis
    using extreme_member[OF c'] val val'
    by (intro bexI[of _ "zip (map fst pm') (normalise c')"]) simp_all
qed

lemma extreme_upper:
  assumes w: "wider pm pm'"
    and v: "list_all (\<lambda>(s, i). valid_interval i) pm" and dist: "distinct (map fst pm)"
    and nn': "nonneg_marginal pm'"
    and d: "d \<in> set (extremes pm)" and s: "s \<in> fst ` set pm"
  shows "\<exists>d'\<in>set (extremes pm'). the (map_of d s) \<le> the (map_of d' s)"
proof -
  from d obtain c where c: "c \<in> set (choices pm)" and dc: "d = zip (map fst pm) (normalise c)"
    by (auto simp: extremes_def)
  from s obtain k where k: "k < length pm" and sk: "s = fst (pm ! k)"
    by (auto simp: in_set_conv_nth)
  have k': "k < length pm'" using k wider_length[OF w] by simp
  have sk': "s = fst (pm' ! k)" using wider_nth(1)[OF w k] sk by simp
  have dist': "distinct (map fst pm')" using nn' by (simp add: nonneg_marginal_def)
  have nn: "nonneg_marginal pm" by (rule valid_nonneg[OF dist v])
  define c' where "c' = (map (fst \<circ> snd) pm')[k := snd (snd (pm' ! k))]"
  have c': "c' \<in> set (choices pm')" unfolding c'_def by (rule corner_choice(2)[OF k'])
  have lc: "length c = length pm" "length c' = length pm'"
    using c c' by (simp_all add: length_choice)
  have val: "the (map_of d s) = normalise c ! k"
    by (simp add: dc sk extreme_lookup[OF dist c k])
  have val': "the (map_of (zip (map fst pm') (normalise c')) s) = normalise c' ! k"
    by (simp add: sk' extreme_lookup[OF dist' c' k'])
  have at: "c ! k \<le> c' ! k"
  proof -
    have "c ! k \<le> snd (snd (pm ! k))" using choice_nth[OF c k] valid_nth(2)[OF v k] by auto
    also have "\<dots> \<le> snd (snd (pm' ! k))" by (rule wider_nth(3)[OF w k])
    also have "\<dots> = c' ! k" using k' by (simp add: c'_def)
    finally show ?thesis .
  qed
  have others: "c' ! j \<le> c ! j" if "j < length c'" "j \<noteq> k" for j
  proof -
    have j: "j < length pm" using that lc wider_length[OF w] by simp
    have "c' ! j = fst (snd (pm' ! j))" using j that wider_length[OF w] by (simp add: c'_def)
    also have "\<dots> \<le> fst (snd (pm ! j))" by (rule wider_nth(2)[OF w j])
    also have "\<dots> \<le> c ! j" using choice_nth[OF c j] valid_nth(2)[OF v j] by auto
    finally show ?thesis .
  qed
  have "normalise c ! k \<le> normalise c' ! k"
  proof (rule normalise_nth_mono)
    show "length c' = length c" using lc wider_length[OF w] by simp
    show "k < length c'" using k' lc by simp
    show "\<And>x. x \<in> set c \<Longrightarrow> 0 \<le> x" using choice_nonneg[OF c nn] .
    show "\<And>x. x \<in> set c' \<Longrightarrow> 0 \<le> x" using choice_nonneg[OF c' nn'] .
    show "c ! k \<le> c' ! k" by (rule at)
    show "\<And>j. j < length c' \<Longrightarrow> j \<noteq> k \<Longrightarrow> c' ! j \<le> c ! j" by (rule others)
  qed
  then show ?thesis
    using extreme_member[OF c'] val val'
    by (intro bexI[of _ "zip (map fst pm') (normalise c')"]) simp_all
qed

lemma weight_lower:
  fixes c :: "dist list" and a :: "state list"
  assumes "list_all2 wider pms pms'"
    and "\<forall>pm\<in>set pms. list_all (\<lambda>(s, i). valid_interval i) pm \<and> distinct (map fst pm)"
    and "\<forall>pm\<in>set pms'. nonneg_marginal pm"
    and "list_all2 (\<lambda>d pm. d \<in> set (extremes pm)) c pms"
    and "list_all2 (\<lambda>s pm. s \<in> fst ` set pm) a pms"
  shows "\<exists>c'. list_all2 (\<lambda>d pm. d \<in> set (extremes pm)) c' pms' \<and>
              0 \<le> weight c' a \<and> weight c' a \<le> weight c a"
  using assms
proof (induction pms pms' arbitrary: c a rule: list_all2_induct)
  case Nil
  then show ?case by simp
next
  case (Cons pm pms pm' pms')
  from Cons.prems(3) obtain d ds where c: "c = d # ds" and d: "d \<in> set (extremes pm)"
    and ds: "list_all2 (\<lambda>d pm. d \<in> set (extremes pm)) ds pms"
    by (auto simp: list_all2_Cons2)
  from Cons.prems(4) obtain s ss where a: "a = s # ss" and s: "s \<in> fst ` set pm"
    and ss: "list_all2 (\<lambda>s pm. s \<in> fst ` set pm) ss pms"
    by (auto simp: list_all2_Cons2)
  from Cons.prems(1) have v: "list_all (\<lambda>(s, i). valid_interval i) pm"
    and dist: "distinct (map fst pm)"
    and rest: "\<forall>pm\<in>set pms. list_all (\<lambda>(s, i). valid_interval i) pm \<and> distinct (map fst pm)"
    by simp_all
  from Cons.prems(2) have nn': "nonneg_marginal pm'" and rest': "\<forall>pm\<in>set pms'. nonneg_marginal pm"
    by simp_all
  from Cons.IH[OF rest rest' ds ss] obtain ds' where
    ds': "list_all2 (\<lambda>d pm. d \<in> set (extremes pm)) ds' pms'" and
    w0: "0 \<le> weight ds' ss" and w: "weight ds' ss \<le> weight ds ss"
    by blast
  from extreme_lower[OF Cons.hyps(1) v dist nn' d s] obtain d' where
    d': "d' \<in> set (extremes pm')" and f0: "0 \<le> the (map_of d' s)"
    and f: "the (map_of d' s) \<le> the (map_of d s)"
    by blast
  have "list_all2 (\<lambda>d pm. d \<in> set (extremes pm)) (d' # ds') (pm' # pms')"
    using d' ds' by simp
  moreover have "0 \<le> weight (d' # ds') a"
    using f0 w0 by (simp add: a)
  moreover have "weight (d' # ds') a \<le> weight c a"
    using f w f0 w0 by (simp add: a c mult_mono)
  ultimately show ?case by blast
qed

lemma weight_upper:
  fixes c :: "dist list" and a :: "state list"
  assumes "list_all2 wider pms pms'"
    and "\<forall>pm\<in>set pms. list_all (\<lambda>(s, i). valid_interval i) pm \<and> distinct (map fst pm)"
    and "\<forall>pm\<in>set pms'. nonneg_marginal pm"
    and "list_all2 (\<lambda>d pm. d \<in> set (extremes pm)) c pms"
    and "list_all2 (\<lambda>s pm. s \<in> fst ` set pm) a pms"
  shows "\<exists>c'. list_all2 (\<lambda>d pm. d \<in> set (extremes pm)) c' pms' \<and> weight c a \<le> weight c' a"
  using assms
proof (induction pms pms' arbitrary: c a rule: list_all2_induct)
  case Nil
  then show ?case by simp
next
  case (Cons pm pms pm' pms')
  from Cons.prems(3) obtain d ds where c: "c = d # ds" and d: "d \<in> set (extremes pm)"
    and ds: "list_all2 (\<lambda>d pm. d \<in> set (extremes pm)) ds pms"
    by (auto simp: list_all2_Cons2)
  from Cons.prems(4) obtain s ss where a: "a = s # ss" and s: "s \<in> fst ` set pm"
    and ss: "list_all2 (\<lambda>s pm. s \<in> fst ` set pm) ss pms"
    by (auto simp: list_all2_Cons2)
  from Cons.prems(1) have v: "list_all (\<lambda>(s, i). valid_interval i) pm"
    and dist: "distinct (map fst pm)"
    and rest: "\<forall>pm\<in>set pms. list_all (\<lambda>(s, i). valid_interval i) pm \<and> distinct (map fst pm)"
    by simp_all
  from Cons.prems(2) have nn': "nonneg_marginal pm'" and rest': "\<forall>pm\<in>set pms'. nonneg_marginal pm"
    by simp_all
  have nn: "nonneg_marginal pm" by (rule valid_nonneg[OF dist v])
  have nns: "\<forall>pm\<in>set pms. nonneg_marginal pm" using rest by (auto intro: valid_nonneg)
  from Cons.IH[OF rest rest' ds ss] obtain ds' where
    ds': "list_all2 (\<lambda>d pm. d \<in> set (extremes pm)) ds' pms'" and
    w: "weight ds ss \<le> weight ds' ss"
    by blast
  from extreme_upper[OF Cons.hyps(1) v dist nn' d s] obtain d' where
    d': "d' \<in> set (extremes pm')" and f: "the (map_of d s) \<le> the (map_of d' s)"
    by blast
  have f0: "0 \<le> the (map_of d s)" using extreme_value_bounds[OF nn d s] by simp
  have w0: "0 \<le> weight ds ss" using weight_bounds[OF ds ss nns] by simp
  have "list_all2 (\<lambda>d pm. d \<in> set (extremes pm)) (d' # ds') (pm' # pms')"
    using d' ds' by simp
  moreover have "weight c a \<le> weight (d' # ds') a"
    using f w f0 w0 by (simp add: a c mult_mono)
  ultimately show ?case by blast
qed

lemma iterations_empty_iff:
  "iterations pms = [] \<longleftrightarrow> product_lists (map (map fst) pms) = []"
proof -
  have "product_lists (map extremes pms) \<noteq> []"
    by (intro product_lists_nonempty) (auto simp: extremes_nonempty)
  then obtain c where "c \<in> set (product_lists (map extremes pms))"
    by (cases "product_lists (map extremes pms)") auto
  then show ?thesis
    by (auto simp: iterations_def concat_eq_Nil_conv)
qed

lemma Min_le_Min:
  fixes A B :: "rat set"
  assumes "finite A" "A \<noteq> {}" "finite B" and "\<And>x. x \<in> A \<Longrightarrow> \<exists>y\<in>B. y \<le> x"
  shows "Min B \<le> Min A"
proof -
  from assms(1,2) have "Min A \<in> A" by (rule Min_in)
  from assms(4)[OF this] obtain y where y: "y \<in> B" "y \<le> Min A" by blast
  have "Min B \<le> y" using assms(3) y(1) by (rule Min_le)
  with y(2) show ?thesis by simp
qed

lemma Max_le_Max:
  fixes A B :: "rat set"
  assumes "finite A" "A \<noteq> {}" "finite B" and "\<And>x. x \<in> A \<Longrightarrow> \<exists>y\<in>B. x \<le> y"
  shows "Max A \<le> Max B"
proof -
  from assms(1,2) have "Max A \<in> A" by (rule Max_in)
  from assms(4)[OF this] obtain y where y: "y \<in> B" "Max A \<le> y" by blast
  have "y \<le> Max B" using assms(3) y(1) by (rule Max_ge)
  with y(2) show ?thesis by simp
qed

lemma iterations_mem:
  "(c, a) \<in> set (iterations pms) \<longleftrightarrow>
     c \<in> set (product_lists (map extremes pms)) \<and>
     a \<in> set (product_lists (map (map fst) pms))"
  by (auto simp: iterations_def)

lemma assignment_iff:
  "a \<in> set (product_lists (map (map fst) pms)) \<longleftrightarrow>
     list_all2 (\<lambda>s pm. s \<in> fst ` set pm) a pms"
  by (simp add: product_lists_set list_all2_map2)

lemma combo_iff:
  "c \<in> set (product_lists (map extremes pms)) \<longleftrightarrow>
     list_all2 (\<lambda>d pm. d \<in> set (extremes pm)) c pms"
  by (simp add: product_lists_set list_all2_map2)

lemma wider_all_keys:
  "list_all2 wider pms pms' \<Longrightarrow> map (map fst) pms' = map (map fst) pms"
  by (induction rule: list_all2_induct) (simp_all add: wider_keys)

lemma bounds_mono:
  assumes w: "list_all2 wider pms pms'"
    and v: "\<forall>pm\<in>set pms. list_all (\<lambda>(s, i). valid_interval i) pm \<and> distinct (map fst pm)"
    and nn': "\<forall>pm\<in>set pms'. nonneg_marginal pm"
    and ent: "\<And>a. a \<in> set (product_lists (map (map fst) pms)) \<Longrightarrow>
        0 \<le> fst (the (map_of (the (map_of tbl' a)) s)) \<and>
        fst (the (map_of (the (map_of tbl' a)) s)) \<le> fst (the (map_of (the (map_of tbl a)) s)) \<and>
        0 \<le> snd (the (map_of (the (map_of tbl a)) s)) \<and>
        snd (the (map_of (the (map_of tbl a)) s)) \<le> snd (the (map_of (the (map_of tbl' a)) s))"
  shows "low_bound tbl' pms' s \<le> low_bound tbl pms s \<and>
         high_bound tbl pms s \<le> high_bound tbl' pms' s"
proof (cases "iterations pms = []")
  case True
  then have "iterations pms' = []"
    by (simp add: iterations_empty_iff wider_all_keys[OF w])
  with True show ?thesis by (simp add: low_bound_def high_bound_def)
next
  case False
  then have False': "iterations pms' \<noteq> []"
    by (simp add: iterations_empty_iff wider_all_keys[OF w])
  have nn: "\<forall>pm\<in>set pms. nonneg_marginal pm" using v by (auto intro: valid_nonneg)
  have keys: "map (map fst) pms' = map (map fst) pms" by (rule wider_all_keys[OF w])
  have lo: "\<exists>y\<in>set (low_terms tbl' pms' s). y \<le> x" if "x \<in> set (low_terms tbl pms s)" for x
  proof -
    from that obtain c a where ca: "(c, a) \<in> set (iterations pms)"
      and x: "x = weight c a * fst (the (map_of (the (map_of tbl a)) s))"
      by (auto simp: low_terms_def)
    from ca have c: "list_all2 (\<lambda>d pm. d \<in> set (extremes pm)) c pms"
      and a: "a \<in> set (product_lists (map (map fst) pms))"
      and a2: "list_all2 (\<lambda>s pm. s \<in> fst ` set pm) a pms"
      by (simp_all add: iterations_mem combo_iff assignment_iff)
    from weight_lower[OF w v nn' c a2] obtain c' where
      c': "list_all2 (\<lambda>d pm. d \<in> set (extremes pm)) c' pms'" and
      w0: "0 \<le> weight c' a" and ww: "weight c' a \<le> weight c a"
      by blast
    have it': "(c', a) \<in> set (iterations pms')"
      using c' a by (simp add: iterations_mem combo_iff keys)
    have "weight c' a * fst (the (map_of (the (map_of tbl' a)) s)) \<le> x"
      unfolding x using ww ent[OF a] w0 by (intro mult_mono) simp_all
    moreover have "weight c' a * fst (the (map_of (the (map_of tbl' a)) s))
        \<in> set (low_terms tbl' pms' s)"
      using it' by (force simp: low_terms_def)
    ultimately show ?thesis by blast
  qed
  have hi: "\<exists>y\<in>set (high_terms tbl' pms' s). x \<le> y" if "x \<in> set (high_terms tbl pms s)" for x
  proof -
    from that obtain c a where ca: "(c, a) \<in> set (iterations pms)"
      and x: "x = weight c a * snd (the (map_of (the (map_of tbl a)) s))"
      by (auto simp: high_terms_def)
    from ca have c: "list_all2 (\<lambda>d pm. d \<in> set (extremes pm)) c pms"
      and a: "a \<in> set (product_lists (map (map fst) pms))"
      and a2: "list_all2 (\<lambda>s pm. s \<in> fst ` set pm) a pms"
      by (simp_all add: iterations_mem combo_iff assignment_iff)
    from weight_upper[OF w v nn' c a2] obtain c' where
      c': "list_all2 (\<lambda>d pm. d \<in> set (extremes pm)) c' pms'" and
      ww: "weight c a \<le> weight c' a"
      by blast
    have w0: "0 \<le> weight c a" using weight_bounds[OF c a2 nn] by simp
    have it': "(c', a) \<in> set (iterations pms')"
      using c' a by (simp add: iterations_mem combo_iff keys)
    have "x \<le> weight c' a * snd (the (map_of (the (map_of tbl' a)) s))"
      unfolding x using ww ent[OF a] w0 by (intro mult_mono) simp_all
    moreover have "weight c' a * snd (the (map_of (the (map_of tbl' a)) s))
        \<in> set (high_terms tbl' pms' s)"
      using it' by (force simp: high_terms_def)
    ultimately show ?thesis by blast
  qed
  have "Min (set (low_terms tbl' pms' s)) \<le> Min (set (low_terms tbl pms s))"
    using False lo by (intro Min_le_Min) (simp_all add: terms_nonempty)
  moreover have "Max (set (high_terms tbl pms s)) \<le> Max (set (high_terms tbl' pms' s))"
    using False hi by (intro Max_le_Max) (simp_all add: terms_nonempty)
  ultimately show ?thesis
    using False False' by (simp add: low_bound_def high_bound_def)
qed

lemma map_of_related:
  assumes "list_all2 (\<lambda>x y. fst x = fst y \<and> R (snd x) (snd y)) xs ys"
    and "map_of xs k = Some v"
  shows "\<exists>v'. map_of ys k = Some v' \<and> R v v'"
  using assms
  by (induction rule: list_all2_induct) (auto split: if_splits)

lemma wider_lookup:
  assumes "wider e e'" and "map_of e s = Some i"
  shows "\<exists>i'. map_of e' s = Some i' \<and> fst i' \<le> fst i \<and> snd i \<le> snd i'"
proof -
  have "list_all2 (\<lambda>x y. fst x = fst y \<and> (fst (snd y) \<le> fst (snd x) \<and> snd (snd x) \<le> snd (snd y)))
      e e'"
    using assms(1) unfolding wider_def
    by (rule list_all2_mono) (auto simp: case_prod_unfold)
  from map_of_related[OF this assms(2)] show ?thesis by simp
qed

lemma table_lookup:
  assumes "list_all2 (\<lambda>(a, e) (a', e'). a = a' \<and> wider e e') tbl tbl'"
    and "map_of tbl a = Some e"
  shows "\<exists>e'. map_of tbl' a = Some e' \<and> wider e e'"
proof -
  have "list_all2 (\<lambda>x y. fst x = fst y \<and> wider (snd x) (snd y)) tbl tbl'"
    using assms(1) by (rule list_all2_mono) (auto simp: case_prod_unfold)
  from map_of_related[OF this assms(2)] show ?thesis .
qed

lemma widened_marginal:
  "valid_node n \<Longrightarrow> valid_node n' \<Longrightarrow> widened n n' \<Longrightarrow>
   wider (marginal_of n) (marginal_of n')"
proof (induction n arbitrary: n')
  case (CredalNode nm ps tbl)
  obtain nm' ps' tbl' where n': "n' = CredalNode nm' ps' tbl'" by (cases n')
  from CredalNode.prems(3) n' have
    pw: "list_all2 widened ps ps'" and
    tw: "list_all2 (\<lambda>(a, e) (a', e'). a = a' \<and> wider e e') tbl tbl'"
    by simp_all
  have len: "length ps = length ps'" using pw by (rule list_all2_lengthD)
  note valid = CredalNode.prems(1)
  note valid' = CredalNode.prems(2)[unfolded n']
  show ?case
  proof (cases "ps = []")
    case True
    with len have True': "ps' = []" by simp
    from valid True obtain e where e: "map_of tbl [] = Some e" and d: "distinct (map fst e)"
      by (auto split: option.splits)
    from table_lookup[OF tw e] obtain e' where e': "map_of tbl' [] = Some e'" and w: "wider e e'"
      by blast
    from valid' True' e' have d': "distinct (map fst e')" by simp
    have "marginal_of (CredalNode nm ps tbl) = e"
      by (simp add: marginal_of_def True e dict_of_distinct[OF d])
    moreover have "marginal_of (CredalNode nm' ps' tbl') = e'"
      by (simp add: marginal_of_def True' e' dict_of_distinct[OF d'])
    ultimately show ?thesis using w n' by simp
  next
    case False
    with len have False': "ps' \<noteq> []" by auto
    let ?pms = "map marginal_of ps"
    let ?pms' = "map marginal_of ps'"
    from valid_parents[OF False valid] obtain first rest where
      tbl: "tbl = first # rest" and
      cov: "\<forall>a\<in>set (product_lists (map (map fst) ?pms)).
        \<exists>e. map_of tbl a = Some e \<and>
           (\<forall>s\<in>set (map fst (snd first)). \<exists>i. map_of e s = Some i \<and> valid_interval i)" and
      m: "marginal_of (CredalNode nm ps tbl) =
        map (\<lambda>s. (s, low_bound tbl ?pms s, high_bound tbl ?pms s)) (map fst (snd first))"
      by blast
    from valid_parents[OF False' valid'] obtain first' rest' where
      tbl': "tbl' = first' # rest'" and
      cov': "\<forall>a\<in>set (product_lists (map (map fst) ?pms')).
        \<exists>e. map_of tbl' a = Some e \<and>
           (\<forall>s\<in>set (map fst (snd first')). \<exists>i. map_of e s = Some i \<and> valid_interval i)" and
      nn': "\<forall>pm\<in>set ?pms'. nonneg_marginal pm" and
      m': "marginal_of (CredalNode nm' ps' tbl') =
        map (\<lambda>s. (s, low_bound tbl' ?pms' s, high_bound tbl' ?pms' s)) (map fst (snd first'))"
      by blast
    have "wider (snd first) (snd first')"
      using tw by (simp add: tbl tbl' case_prod_unfold)
    then have ns: "map fst (snd first') = map fst (snd first)" by (rule wider_keys)
    have vp: "valid_node p" if "p \<in> set ps" for p
      using valid False that by (simp add: list_all_iff)
    have vp': "valid_node p" if "p \<in> set ps'" for p
      using valid' False' that by (simp add: list_all_iff)
    have w: "list_all2 wider ?pms ?pms'"
      unfolding list_all2_map1 list_all2_map2
    proof (rule list_all2_all_nthI[OF len])
      fix i assume i: "i < length ps"
      then have "ps ! i \<in> set ps" "ps' ! i \<in> set ps'" using len by simp_all
      moreover have "widened (ps ! i) (ps' ! i)" using pw i by (rule list_all2_nthD)
      ultimately show "wider (marginal_of (ps ! i)) (marginal_of (ps' ! i))"
        using CredalNode.IH vp vp' by blast
    qed
    have v1: "list_all (\<lambda>(s, i). valid_interval i) (marginal_of p) \<and>
        distinct (map fst (marginal_of p))" if "p \<in> set ps" for p
      using valid_marginal[OF vp[OF that]] by blast
    have v: "\<forall>pm\<in>set ?pms. list_all (\<lambda>(s, i). valid_interval i) pm \<and> distinct (map fst pm)"
      by (simp add: v1)
    have keys: "map (map fst) ?pms' = map (map fst) ?pms" by (rule wider_all_keys[OF w])
    have bm: "low_bound tbl' ?pms' s \<le> low_bound tbl ?pms s \<and>
              high_bound tbl ?pms s \<le> high_bound tbl' ?pms' s"
      if s: "s \<in> set (map fst (snd first))" for s
    proof (rule bounds_mono[OF w v nn'])
      fix a assume a: "a \<in> set (product_lists (map (map fst) ?pms))"
      with cov s obtain e i where e: "map_of tbl a = Some e" and i: "map_of e s = Some i"
        and vi: "valid_interval i"
        by blast
      from table_lookup[OF tw e] obtain e' where e': "map_of tbl' a = Some e'"
        and we: "wider e e'" by blast
      from wider_lookup[OF we i] obtain i' where i': "map_of e' s = Some i'"
        and le: "fst i' \<le> fst i" "snd i \<le> snd i'" by blast
      from cov' a s e' i' have vi': "valid_interval i'"
        unfolding keys ns by fastforce
      show "0 \<le> fst (the (map_of (the (map_of tbl' a)) s)) \<and>
        fst (the (map_of (the (map_of tbl' a)) s)) \<le> fst (the (map_of (the (map_of tbl a)) s)) \<and>
        0 \<le> snd (the (map_of (the (map_of tbl a)) s)) \<and>
        snd (the (map_of (the (map_of tbl a)) s)) \<le> snd (the (map_of (the (map_of tbl' a)) s))"
        using vi vi' le by (simp add: e e' i i' valid_interval_def)
    qed
    have "wider (marginal_of (CredalNode nm ps tbl)) (marginal_of (CredalNode nm' ps' tbl'))"
      unfolding m m' ns wider_def list_all2_map1 list_all2_map2
      using bm by (intro list_all2_all_nthI) simp_all
    then show ?thesis by (simp add: n')
  qed
qed

text \<open>
  C4, amended: in exact arithmetic (the rounding that changes nothing), for nodes with valid
  tables, widening the intervals of the node's table and of its ancestors' tables (each low
  kept or lowered, each high kept or raised, the tables staying valid) gives, for every
  state, a new low at most the old low and a new high at least the old high.
\<close>

theorem widening_is_monotone:
  assumes "valid_node n" and "valid_node n'" and "widened n n'"
  shows "\<exists>m m'. snd (fl_compute_marginal_extreme (\<lambda>x. x) n) = Inr m \<and>
                snd (fl_compute_marginal_extreme (\<lambda>x. x) n') = Inr m' \<and>
                list_all2 (\<lambda>(s, l, u) (s', l', u'). s = s' \<and> l' \<le> l \<and> u \<le> u') m m'"
  using widened_marginal[OF assms] valid_marginal[OF assms(1)] valid_marginal[OF assms(2)]
  unfolding wider_def fl_compute_exact by blast

theorem widening_is_monotone_witness:
  "valid_node fever \<and> valid_node fever_wide \<and> widened fever fever_wide \<and>
   snd (fl_compute_marginal_extreme (\<lambda>x. x) fever_wide) = Inr (marginal_of fever_wide) \<and>
   wider (marginal_of fever) (marginal_of fever_wide)"
proof -
  have v': "valid_node fever_wide"
    by (simp add: fever_wide_def flu_wide_def cold_def valid_interval_def)
  have w: "widened fever fever_wide"
    by (simp add: fever_def fever_wide_def flu_def flu_wide_def cold_def wider_def)
  from widening_is_monotone[OF valid_fever v' w] obtain m m' where
    m: "snd (fl_compute_marginal_extreme (\<lambda>x. x) fever) = Inr m" and
    m': "snd (fl_compute_marginal_extreme (\<lambda>x. x) fever_wide) = Inr m'" and
    r: "list_all2 (\<lambda>(s, l, u) (s', l', u'). s = s' \<and> l' \<le> l \<and> u \<le> u') m m'"
    by blast
  have "marginal_of fever = m" "marginal_of fever_wide = m'"
    using m m' by (simp_all add: marginal_of_eq fl_compute_exact)
  with r m' valid_fever v' w show ?thesis by (simp add: wider_def)
qed

subsection \<open>A widening that rounding turns into a narrowing\<close>

lemma ulp_x_eval:
  "fl_compute_marginal_extreme round_double ulp_x =
     ([''X''], Inr [(''a'', (3602879701896397 / 18014398509481984, 5404319552844595 / 18014398509481984)),
                    (''b'', (5404319552844595 / 36028797018963968, 3602879701896397 / 4503599627370496))])"
  by (simp add: ulp_x_def dict_of_def round_double_eval)

lemma ulp_x_wide_eval:
  "fl_compute_marginal_extreme round_double ulp_x_wide =
     ([''X''], Inr [(''a'', (3602879701896397 / 18014398509481984, 1351079888211149 / 4503599627370496)),
                    (''b'', (5404319552844595 / 36028797018963968, 3602879701896397 / 4503599627370496))])"
  by (simp add: ulp_x_wide_def dict_of_def round_double_eval)

lemma ulp_table_eval:
  "ulp_table = [([''a''], [(''y'', (1/2, 1))]),
                ([''b''], [(''y'', (0, 3602879701896397 / 36028797018963968))])]"
  by (simp add: ulp_table_def round_double_eval)

lemmas fl_eval =
  fl_combine_parents_def fl_extreme_points_def fl_extreme_of_def fl_sum_def truediv_def
  fl_visit_combo_def fl_visit_assignment_def fl_update_state_def final_bounds_def dict_of_def

lemma ulp_y_eval:
  "fl_compute_marginal_extreme round_double ulp_y =
     ([''Y'', ''X''], Inr [(''y'', (0, 3002399751580331 / 4503599627370496))])"
  unfolding ulp_y_def
  by (simp add: ulp_x_eval ulp_table_eval fl_eval round_double_eval)

lemma ulp_y_wide_eval:
  "fl_compute_marginal_extreme round_double ulp_y_wide =
     ([''Y'', ''X''], Inr [(''y'', (0, 6004799503160661 / 9007199254740992))])"
  unfolding ulp_y_wide_def
  by (simp add: ulp_x_wide_eval ulp_table_eval fl_eval round_double_eval)

lemma valid_ulp: "valid_node ulp_y" "valid_node ulp_y_wide"
  by (simp_all add: ulp_y_def ulp_y_wide_def ulp_x_def ulp_x_wide_def ulp_table_eval
      valid_interval_def round_double_eval)

lemma widened_ulp: "widened ulp_y ulp_y_wide"
  by (simp add: ulp_y_def ulp_y_wide_def ulp_x_def ulp_x_wide_def ulp_table_eval wider_def
      round_double_eval)

text \<open>
  C4, as stated, fails in the arithmetic of the code: with doubles, raising the high of
  state \<open>a\<close> of the root \<open>X\<close> from \<open>0.3\<close> to the next double lowers the high that its
  child \<open>Y\<close> gets for state \<open>y\<close> from \<open>0.6666666666666667\<close> to \<open>0.6666666666666666\<close>:
  the renormalisation of lines 65-67 rounds \<open>0.3 / (0.3 + 0.15)\<close> up and the quotient of
  the widened values down.
\<close>

theorem rounding_narrows_widened_bound:
  "valid_node ulp_y \<and> valid_node ulp_y_wide \<and> widened ulp_y ulp_y_wide \<and>
   snd (fl_compute_marginal_extreme round_double ulp_y) =
     Inr [(''y'', (0, 3002399751580331 / 4503599627370496))] \<and>
   snd (fl_compute_marginal_extreme round_double ulp_y_wide) =
     Inr [(''y'', (0, 6004799503160661 / 9007199254740992))] \<and>
   (6004799503160661 / 9007199254740992 :: rat) < 3002399751580331 / 4503599627370496"
  by (simp add: valid_ulp widened_ulp ulp_y_eval ulp_y_wide_eval)

subsection \<open>Chains of point intervals\<close>

lemma point_choices:
  assumes "\<forall>(s, l, u)\<in>set pm. l = u"
  shows "set (choices pm) = {map (\<lambda>(x, l, u). l) pm}"
proof -
  have "c = map (\<lambda>(x, l, u). l) pm" if "c \<in> set (choices pm)" for c
  proof (rule nth_equalityI)
    show "length c = length (map (\<lambda>(x, l, u). l) pm)"
      using that by (simp add: length_choice)
    fix i assume "i < length c"
    then have i: "i < length pm" using that by (simp add: length_choice)
    then have "pm ! i \<in> set pm" by simp
    with assms have "fst (snd (pm ! i)) = snd (snd (pm ! i))" by (auto simp: case_prod_unfold)
    with choice_nth[OF that i] i show "c ! i = map (\<lambda>(x, l, u). l) pm ! i"
      by (auto simp: case_prod_unfold)
  qed
  then have "set (choices pm) \<subseteq> {map (\<lambda>(x, l, u). l) pm}" by (intro subsetI) simp
  moreover have "set (choices pm) \<noteq> {}" using choices_nonempty[of pm] by simp
  ultimately show ?thesis by (simp add: subset_singleton_iff)
qed

lemma point_extremes:
  assumes "\<forall>(s, l, u)\<in>set pm. l = u"
  shows "set (extremes pm) = {zip (map fst pm) (normalise (map (\<lambda>(x, l, u). l) pm))}"
  by (simp add: extremes_def point_choices[OF assms])

lemma iterations_single:
  "set (iterations [pm]) = {([d], [x]) | d x. d \<in> set (extremes pm) \<and> x \<in> fst ` set pm}"
  by (auto simp: iterations_def)

lemma point_iteration_terms:
  assumes p: "\<forall>(s, l, u)\<in>set pm. l = u" and d: "distinct (map fst pm)"
  shows "(\<lambda>(c, a). weight c a * f a) ` set (iterations [pm]) =
         (\<lambda>(x, p). p * f [x]) ` set (zip (map fst pm) (normalise (map (\<lambda>(x, l, u). l) pm)))"
    (is "?L = ?R")
proof -
  let ?d0 = "zip (map fst pm) (normalise (map (\<lambda>(x, l, u). l) pm))"
  define K where "K = fst ` set pm"
  have keys: "fst ` set ?d0 = K"
    unfolding K_def by (metis length_map length_normalise map_fst_zip set_map)
  have dist: "distinct (map fst ?d0)" using d by (simp add: length_normalise)
  have its: "set (iterations [pm]) = {([?d0], [x]) | x. x \<in> K}"
    unfolding K_def by (auto simp: iterations_single point_extremes[OF p])
  have val: "map_of ?d0 x = Some q" if "(x, q) \<in> set ?d0" for x q
    using that dist by (rule map_of_is_SomeI[rotated])
  show ?thesis
  proof (intro equalityI subsetI)
    fix t assume "t \<in> ?L"
    then obtain x where x: "x \<in> K" and t: "t = weight [?d0] [x] * f [x]"
      unfolding its by auto
    from x have "x \<in> fst ` set ?d0" using keys by simp
    then obtain q where q: "(x, q) \<in> set ?d0" by auto
    then have "t = q * f [x]" using val[OF q] t by simp
    with q show "t \<in> ?R" by force
  next
    fix t assume "t \<in> ?R"
    then obtain x q where q: "(x, q) \<in> set ?d0" and t: "t = q * f [x]" by auto
    from q have "x \<in> fst ` set ?d0" by force
    then have x: "x \<in> K" using keys by simp
    have "t = weight [?d0] [x] * f [x]" using val[OF q] t by simp
    with x show "t \<in> ?L" unfolding its by force
  qed
qed

lemma point_low_terms:
  assumes "\<forall>(s, l, u)\<in>set pm. l = u" and "distinct (map fst pm)"
  shows "set (low_terms tbl [pm] s) = set (point_terms pm tbl s)"
  using point_iteration_terms[OF assms, of "\<lambda>a. fst (the (map_of (the (map_of tbl a)) s))"]
  by (simp add: low_terms_def point_terms_def case_prod_unfold)

lemma point_high_terms:
  assumes p: "\<forall>(s, l, u)\<in>set pm. l = u" and d: "distinct (map fst pm)"
    and e: "\<And>x. x \<in> fst ` set pm \<Longrightarrow>
        snd (the (map_of (the (map_of tbl [x])) s)) = fst (the (map_of (the (map_of tbl [x])) s))"
  shows "set (high_terms tbl [pm] s) = set (point_terms pm tbl s)"
proof -
  have "set (high_terms tbl [pm] s) =
      (\<lambda>(c, a). weight c a * snd (the (map_of (the (map_of tbl a)) s))) ` set (iterations [pm])"
    by (simp add: high_terms_def)
  also have "\<dots> =
      (\<lambda>(c, a). weight c a * fst (the (map_of (the (map_of tbl a)) s))) ` set (iterations [pm])"
  proof (rule image_cong[OF refl])
    fix it assume "it \<in> set (iterations [pm])"
    then obtain dd x where it: "it = ([dd], [x])" and x: "x \<in> fst ` set pm"
      unfolding iterations_single by blast
    show "(case it of (c, a) \<Rightarrow> weight c a * snd (the (map_of (the (map_of tbl a)) s))) =
          (case it of (c, a) \<Rightarrow> weight c a * fst (the (map_of (the (map_of tbl a)) s)))"
      unfolding it by (simp only: prod.case e[OF x])
  qed
  also have "\<dots> = set (low_terms tbl [pm] s)" by (simp add: low_terms_def)
  finally show ?thesis by (simp add: point_low_terms[OF p d])
qed

lemma iterations_single_empty: "iterations [pm] = [] \<longleftrightarrow> pm = []"
  by (cases pm) (simp_all add: iterations_empty_iff)

lemma point_entry:
  assumes "list_all (\<lambda>(a, e). list_all (\<lambda>(s, l, u). l = u) e) tbl"
    and "map_of tbl a = Some e" and "map_of e s = Some i"
  shows "snd i = fst i"
proof -
  from assms(2) have "(a, e) \<in> set tbl" by (rule map_of_SomeD)
  with assms(1) have "list_all (\<lambda>(s, l, u). l = u) e" by (auto simp: list_all_iff)
  moreover from assms(3) have "(s, i) \<in> set e" by (rule map_of_SomeD)
  ultimately show ?thesis by (auto simp: list_all_iff)
qed

lemma chain_a_eval:
  "compute_marginal_extreme chain_a = ([''A''], Inr [(''a1'', (1/2, 1/2)), (''a2'', (1/2, 1/2))])"
  by (simp add: chain_a_def dict_of_def)

lemma chain_b_eval:
  "compute_marginal_extreme chain_b =
     ([''B'', ''A''], Inr [(''b1'', (1/10, 2/5)), (''b2'', (1/10, 2/5))])"
  unfolding chain_b_def
  by (simp add: chain_a_eval combine_parents_def extreme_points_def extreme_of_def truediv_def
      visit_combo_def visit_assignment_def update_state_def final_bounds_def dict_of_def)

lemma point_chain_c: "point_node chain_c"
  by (simp add: chain_c_def chain_b_def chain_a_def)

lemma valid_chain_c: "valid_node chain_c"
  by (simp add: chain_c_def chain_b_def chain_a_def valid_interval_def)

text \<open>
  C2, as stated, fails: in the chain \<open>A \<rightarrow> B \<rightarrow> C\<close> of point intervals below, the
  result for state \<open>b1\<close> of \<open>B\<close> is \<open>(1/10, 2/5)\<close>, with \<open>low \<noteq> high\<close>, while ordinary
  forward propagation gives \<open>1/2\<close>.
\<close>

theorem point_chain_does_not_collapse:
  "point_node chain_c \<and>
   parents chain_c = [chain_b] \<and> parents chain_b = [chain_a] \<and> parents chain_a = [] \<and>
   map_of (marginal_of chain_b) ''b1'' = Some (1/10, 2/5) \<and>
   forward_probability (marginal_of chain_a) (credal_table chain_b) ''b1'' = 1/2"
proof -
  have a: "marginal_of chain_a = [(''a1'', (1/2, 1/2)), (''a2'', (1/2, 1/2))]"
    by (simp add: marginal_of_def chain_a_eval)
  have b: "map_of (marginal_of chain_b) ''b1'' = Some (1/10, 2/5)"
    by (simp add: marginal_of_def chain_b_eval)
  have f: "forward_probability (marginal_of chain_a) (credal_table chain_b) ''b1'' = 1/2"
    unfolding a by (simp add: forward_probability_def point_terms_def normalise_def chain_b_def)
  have ps: "parents chain_c = [chain_b]" "parents chain_b = [chain_a]" "parents chain_a = []"
    by (simp_all add: chain_c_def chain_b_def chain_a_def)
  show ?thesis using point_chain_c ps b f by simp
qed

text \<open>
  C2, amended: for every chain \<open>A \<rightarrow> B \<rightarrow> C\<close> with valid tables whose intervals all have
  \<open>low = high\<close>: the root \<open>A\<close> returns its own point entry, so \<open>low = high\<close> there; for
  every state of \<open>B\<close> the low is the least and the high the greatest of the products of
  the renormalised probability of a state of \<open>A\<close> with the conditional point probability
  (the products are not added up, so the interval collapses only when they coincide); and
  \<open>C\<close> returns bounds with \<open>0 \<le> low \<le> high \<le> 1\<close>.
\<close>

theorem point_chain_marginals:
  assumes v: "valid_node (CredalNode nc [CredalNode nb [CredalNode na [] ta] tb] tc)"
    and p: "point_node (CredalNode nc [CredalNode nb [CredalNode na [] ta] tb] tc)"
  shows "\<exists>ea mc.
     map_of ta [] = Some ea \<and> (\<forall>(s, l, u)\<in>set ea. l = u) \<and>
     snd (compute_marginal_extreme (CredalNode na [] ta)) = Inr ea \<and>
     snd (compute_marginal_extreme (CredalNode nb [CredalNode na [] ta] tb)) =
       Inr (map (\<lambda>s. (s, (if ea = [] then 0 else Min (set (point_terms ea tb s))),
                         (if ea = [] then 1 else Max (set (point_terms ea tb s)))))
              (states_of (CredalNode nb [CredalNode na [] ta] tb))) \<and>
     snd (compute_marginal_extreme (CredalNode nc [CredalNode nb [CredalNode na [] ta] tb] tc)) =
       Inr mc \<and>
     (\<forall>(s, l, u)\<in>set mc. 0 \<le> l \<and> l \<le> u \<and> u \<le> 1)"
proof -
  let ?A = "CredalNode na [] ta"
  let ?B = "CredalNode nb [?A] tb"
  let ?C = "CredalNode nc [?B] tc"
  have vB: "valid_node ?B" using v by simp
  have vA: "valid_node ?A" using vB by simp
  have pB: "list_all (\<lambda>(a, e). list_all (\<lambda>(s, l, u). l = u) e) tb" using p by simp
  have pA: "list_all (\<lambda>(a, e). list_all (\<lambda>(s, l, u). l = u) e) ta" using p by simp
  from vA obtain ea where ea: "map_of ta [] = Some ea" and dist: "distinct (map fst ea)"
    by (auto split: option.splits)
  have pe: "\<forall>(s, l, u)\<in>set ea. l = u"
    using pA map_of_SomeD[OF ea] by (auto simp: list_all_iff)
  have rA: "snd (compute_marginal_extreme ?A) = Inr ea"
    by (simp add: ea dict_of_distinct[OF dist])
  have mA: "map marginal_of [?A] = [ea]"
    using rA by (simp add: marginal_of_def)
  have "[?A] \<noteq> []" by simp
  from valid_parents[OF this vB, unfolded mA] obtain first rest where
    tb: "tb = first # rest" and
    cov: "\<forall>a\<in>set (product_lists (map (map fst) [ea])).
        \<exists>e. map_of tb a = Some e \<and>
           (\<forall>s\<in>set (map fst (snd first)). \<exists>i. map_of e s = Some i \<and> valid_interval i)" and
    rB: "snd (compute_marginal_extreme ?B) = Inr (marginal_of ?B)" and
    mB: "marginal_of ?B =
        map (\<lambda>s. (s, low_bound tb [ea] s, high_bound tb [ea] s)) (map fst (snd first))"
    by blast
  have ns: "states_of ?B = map fst (snd first)" by (simp add: tb)
  have bounds: "low_bound tb [ea] s = (if ea = [] then 0 else Min (set (point_terms ea tb s))) \<and>
      high_bound tb [ea] s = (if ea = [] then 1 else Max (set (point_terms ea tb s)))"
    if s: "s \<in> set (map fst (snd first))" for s
  proof -
    have e: "snd (the (map_of (the (map_of tb [x])) s)) = fst (the (map_of (the (map_of tb [x])) s))"
      if "x \<in> fst ` set ea" for x
    proof -
      from that have "[x] \<in> set (product_lists (map (map fst) [ea]))" by auto
      with cov s obtain e i where e: "map_of tb [x] = Some e" and i: "map_of e s = Some i"
        by blast
      from point_entry[OF pB e i] show ?thesis by (simp add: e i)
    qed
    show ?thesis
      by (simp add: low_bound_def high_bound_def iterations_single_empty
          point_low_terms[OF pe dist] point_high_terms[OF pe dist e])
  qed
  have "marginal_of ?B =
      map (\<lambda>s. (s, (if ea = [] then 0 else Min (set (point_terms ea tb s))),
                   (if ea = [] then 1 else Max (set (point_terms ea tb s)))))
        (states_of ?B)"
    unfolding mB ns by (rule map_cong[OF refl]) (simp add: bounds)
  with rB have B: "snd (compute_marginal_extreme ?B) =
      Inr (map (\<lambda>s. (s, (if ea = [] then 0 else Min (set (point_terms ea tb s))),
                   (if ea = [] then 1 else Max (set (point_terms ea tb s)))))
        (states_of ?B))"
    by simp
  from valid_marginal[OF v] have
    "snd (compute_marginal_extreme ?C) = Inr (marginal_of ?C)"
    "\<forall>(s, l, u)\<in>set (marginal_of ?C). 0 \<le> l \<and> l \<le> u \<and> u \<le> 1"
    by (auto simp: list_all_iff valid_interval_def)
  with ea pe rA B show ?thesis by blast
qed

theorem point_chain_marginals_witness:
  "valid_node chain_c \<and> point_node chain_c \<and>
   snd (compute_marginal_extreme chain_a) = Inr [(''a1'', (1/2, 1/2)), (''a2'', (1/2, 1/2))] \<and>
   snd (compute_marginal_extreme chain_b) =
     Inr [(''b1'', (1/10, 2/5)), (''b2'', (1/10, 2/5))]"
proof -
  note v = valid_chain_c[unfolded chain_c_def chain_b_def chain_a_def]
  note p = point_chain_c[unfolded chain_c_def chain_b_def chain_a_def]
  from point_chain_marginals[OF v p]
  have "snd (compute_marginal_extreme chain_a) = Inr [(''a1'', (1/2, 1/2)), (''a2'', (1/2, 1/2))]"
    and "snd (compute_marginal_extreme chain_b) =
     Inr [(''b1'', (1/10, 2/5)), (''b2'', (1/10, 2/5))]"
    unfolding chain_b_def chain_a_def
    by (auto simp: point_terms_def normalise_def)
  with valid_chain_c point_chain_c show ?thesis by simp
qed

end
